theory Spec2Isabelle
  imports Main "HOL-Library.Word" "HOL-Library.Signed_Division" "HOL-Library.AList"
    "HOL-Library.Multiset"
begin

section \<open>Fragment directory (fragment\_directory.go)\<close>

text \<open>
  \<^verbatim>\<open>FragmentKey\<close> and \<^verbatim>\<open>FragMapping\<close> are the two Go structs of the directory.
  Go's \<^verbatim>\<open>int\<close> node identifier is only ever compared for equality, so it is an
  \<open>int\<close>; the sized fields are words of their width.
\<close>

record FragmentKey =
  VPN :: "64 word"
  Index :: "16 word"

record FragMapping =
  NodeID :: int
  PhysAddr :: "64 word"
  Size :: "32 word"
  Replica :: bool
  LeaseEnds :: "64 word"
  Flags :: "32 word"

text \<open>
  The directory's \<^verbatim>\<open>data\<close> field is a Go map. It is kept as an association list so
  that the \<^verbatim>\<open>range\<close> loop of \<^verbatim>\<open>ScanForNode\<close> is a loop of the model too; a
  store \<^verbatim>\<open>d.data[fk] = m\<close> overwrites the entry of the key or adds one, and
  \<^verbatim>\<open>delete(d.data, fk)\<close> removes it. The mutex only makes each method atomic, which
  a function from state to state is.
\<close>

record FragmentDirectory =
  data :: "(FragmentKey \<times> FragMapping) list"

definition NewFragmentDirectory :: FragmentDirectory where
  "NewFragmentDirectory = \<lparr>data = []\<rparr>"

text \<open>The zero value of \<^verbatim>\<open>FragMapping\<close>, which a Go map read returns for an absent key.\<close>

definition zero_FragMapping :: FragMapping where
  "zero_FragMapping =
     \<lparr>NodeID = 0, PhysAddr = 0, Size = 0, Replica = False, LeaseEnds = 0, Flags = 0\<rparr>"

definition Lookup :: "FragmentDirectory \<Rightarrow> 64 word \<Rightarrow> 16 word \<Rightarrow> FragMapping \<times> bool" where
  "Lookup d vpn idx =
     (let fk = \<lparr>VPN = vpn, Index = idx\<rparr>
      in case map_of (data d) fk of
           Some m \<Rightarrow> (m, True)
         | None \<Rightarrow> (zero_FragMapping, False))"

definition Install :: "FragmentDirectory \<Rightarrow> 64 word \<Rightarrow> 16 word \<Rightarrow> FragMapping \<Rightarrow> FragmentDirectory" where
  "Install d vpn idx m =
     (let fk = \<lparr>VPN = vpn, Index = idx\<rparr>
      in d\<lparr>data := AList.update fk m (data d)\<rparr>)"

definition Remove :: "FragmentDirectory \<Rightarrow> 64 word \<Rightarrow> 16 word \<Rightarrow> FragmentDirectory" where
  "Remove d vpn idx =
     (let fk = \<lparr>VPN = vpn, Index = idx\<rparr>
      in d\<lparr>data := AList.delete fk (data d)\<rparr>)"

text \<open>
  The body of \<^verbatim>\<open>for k, v := range d.data\<close>: one entry at a time, in the order the
  entries are handed over, storing the matching ones in \<^verbatim>\<open>out\<close>.
\<close>

fun scan_loop :: "int \<Rightarrow> (FragmentKey \<times> FragMapping) list \<Rightarrow> (FragmentKey \<times> FragMapping) list
    \<Rightarrow> (FragmentKey \<times> FragMapping) list" where
  "scan_loop node [] out = out"
| "scan_loop node ((k, v) # rest) out =
     scan_loop node rest (if NodeID v = node then AList.update k v out else out)"

definition ScanForNode :: "FragmentDirectory \<Rightarrow> int \<Rightarrow> (FragmentKey \<times> FragMapping) list" where
  "ScanForNode d node = scan_loop node (data d) []"

text \<open>
  A directory state is what a sequence of \<^verbatim>\<open>Install\<close> and \<^verbatim>\<open>Remove\<close> calls leaves
  behind, starting from \<^verbatim>\<open>NewFragmentDirectory()\<close>.
\<close>

datatype dir_op =
    OpInstall "64 word" "16 word" FragMapping
  | OpRemove "64 word" "16 word"

fun apply_dir_op :: "FragmentDirectory \<Rightarrow> dir_op \<Rightarrow> FragmentDirectory" where
  "apply_dir_op d (OpInstall vpn idx m) = Install d vpn idx m"
| "apply_dir_op d (OpRemove vpn idx) = Remove d vpn idx"

definition run_dir_ops :: "dir_op list \<Rightarrow> FragmentDirectory" where
  "run_dir_ops ops = foldl apply_dir_op NewFragmentDirectory ops"

text \<open>
  The specification's reading of a directory history, newest call first: the mapping
  a key currently has is the one of its most recent \<^verbatim>\<open>Install\<close>, unless a
  \<^verbatim>\<open>Remove\<close> of the key came after it.
\<close>

fun spec_latest_rev :: "dir_op list \<Rightarrow> FragmentKey \<Rightarrow> FragMapping option" where
  "spec_latest_rev [] k = None"
| "spec_latest_rev (OpInstall vpn idx m # older) k =
     (if \<lparr>VPN = vpn, Index = idx\<rparr> = k then Some m else spec_latest_rev older k)"
| "spec_latest_rev (OpRemove vpn idx # older) k =
     (if \<lparr>VPN = vpn, Index = idx\<rparr> = k then None else spec_latest_rev older k)"

definition spec_most_recently_installed :: "dir_op list \<Rightarrow> FragmentKey \<Rightarrow> FragMapping option" where
  "spec_most_recently_installed ops k = spec_latest_rev (rev ops) k"

section \<open>Transfer engine (pm\_engine.go)\<close>

text \<open>
  Requests are handed to the engine by pointer and the engine writes into them, so the
  model keeps a memory: \<open>heap\<close> maps the address of a request to the struct stored
  there, and a non-nil \<^verbatim>\<open>*TransferRequest\<close> is an address; \<open>None\<close> is the nil pointer.
  Channels live in a store of their own, a \<^verbatim>\<open>chan error\<close> value being the identifier
  of a channel (\<open>None\<close> for the nil channel).

  \<^verbatim>\<open>Priority\<close>, \<^verbatim>\<open>SrcNode\<close> and \<^verbatim>\<open>DstNode\<close> are Go \<^verbatim>\<open>int\<close>s that are only stored
  and compared, never computed with, so they are \<open>int\<close>; \<^verbatim>\<open>SizeBytes\<close> and
  \<^verbatim>\<open>time.Duration\<close> take part in arithmetic that can overflow and are 64-bit words.
\<close>

type_synonym addr = nat
type_synonym chan_id = nat

datatype error = errors_New string

record TransferRequest =
  ID :: string
  SrcNode :: int
  DstNode :: int
  SizeBytes :: "64 word"
  Priority :: int
  Meta :: string
  Done :: "chan_id option"

text \<open>
  A channel of \<^verbatim>\<open>error\<close> values: the values waiting in its buffer, oldest first, and
  the capacity it was made with. The nil error is \<open>None\<close>.
\<close>

record chan =
  buf :: "error option list"
  cap :: nat

text \<open>
  \<^verbatim>\<open>select { case ch <- v: default: }\<close> on a non-nil channel, as the Go runtime
  decides it: the value goes straight to a receiver that is blocked on the channel,
  otherwise into the buffer when there is room, otherwise the \<^verbatim>\<open>default\<close> branch is
  taken and the value is gone.
\<close>

datatype send_outcome = Handed | Buffered | Dropped

definition nb_send :: "chan \<Rightarrow> error option \<Rightarrow> bool \<Rightarrow> send_outcome \<times> chan" where
  "nb_send ch v receiver_waiting =
     (if receiver_waiting then (Handed, ch)
      else if length (buf ch) < cap ch then (Buffered, ch\<lparr>buf := buf ch @ [v]\<rparr>)
      else (Dropped, ch))"

text \<open>
  The state of the program around one \<^verbatim>\<open>PMEngine\<close>. The fields \<open>pending\<close>,
  \<open>active\<close>, \<open>interval\<close> are the struct's; \<open>quit_closed\<close> says whether the
  \<^verbatim>\<open>quit\<close> channel (on which nothing is ever sent) has been closed; \<open>heap\<close>,
  \<open>chans\<close> and \<open>nchans\<close> (the number of channels made so far) are the memory.
  \<open>loop_returned\<close> says that the goroutine running \<^verbatim>\<open>loop\<close> has returned;
  \<open>loop_past_select\<close> says where it is otherwise: past the \<^verbatim>\<open>select\<close> on
  \<^verbatim>\<open>quit\<close> of its current iteration (true), or about to run that \<^verbatim>\<open>select\<close>
  (false). \<open>sleeping\<close> holds the completion goroutines that were started and are
  still in \<^verbatim>\<open>time.Sleep(l)\<close>, each with its arguments \<^verbatim>\<open>(r, l)\<close>.

  Two fields record what happened and are read by no operation: \<open>dispatched\<close> lists
  the requests in the order \<^verbatim>\<open>loop\<close> took them off the queue, and \<open>signals\<close> lists,
  for every completion goroutine that has run its \<^verbatim>\<open>select\<close>, the request, the
  channel it found in \<^verbatim>\<open>r.Done\<close> and what became of the send.
\<close>

record engine_state =
  heap :: "addr \<Rightarrow> TransferRequest"
  chans :: "chan_id \<Rightarrow> chan"
  nchans :: nat
  pending :: "addr list"
  active :: bool
  quit_closed :: bool
  interval :: "64 word"
  loop_returned :: bool
  loop_past_select :: bool
  sleeping :: "(addr \<times> 64 word) list"
  dispatched :: "addr list"
  signals :: "(addr \<times> chan_id option \<times> send_outcome) list"

text \<open>\<^verbatim>\<open>time.Millisecond\<close>, in nanoseconds as \<^verbatim>\<open>time.Duration\<close> counts.\<close>

definition Millisecond :: "64 word" where
  "Millisecond = 1000000"

text \<open>
  \<^verbatim>\<open>NewPMEngine()\<close>, called in a program whose memory holds the requests \<open>h\<close> and
  the \<open>n\<close> channels \<open>cs\<close>: an empty queue, an open \<^verbatim>\<open>quit\<close> channel, the default
  base latency, and the loop goroutine started, about to run its first \<^verbatim>\<open>select\<close>.
\<close>

definition NewPMEngine :: "(addr \<Rightarrow> TransferRequest) \<Rightarrow> (chan_id \<Rightarrow> chan) \<Rightarrow> nat \<Rightarrow> engine_state" where
  "NewPMEngine h cs n =
     \<lparr>heap = h, chans = cs, nchans = n, pending = [], active = False, quit_closed = False,
      interval = 2 * Millisecond, loop_returned = False, loop_past_select = False,
      sleeping = [], dispatched = [], signals = []\<rparr>"

text \<open>
  The loop of \<^verbatim>\<open>EnqueueTransfer\<close>, \<^verbatim>\<open>for i := len(e.pending) - 1; i > 0; i--\<close>,
  with \<open>prio a\<close> the \<^verbatim>\<open>Priority\<close> field of the request at address \<open>a\<close>: the second
  argument is \<open>i\<close>.
\<close>

fun insertion_loop :: "(addr \<Rightarrow> int) \<Rightarrow> nat \<Rightarrow> addr list \<Rightarrow> addr list" where
  "insertion_loop prio 0 p = p"
| "insertion_loop prio (Suc j) p =
     (if prio (p ! Suc j) < prio (p ! j)
      then insertion_loop prio j (p[Suc j := p ! j, j := p ! Suc j])
      else p)"

definition EnqueueTransfer :: "addr option \<Rightarrow> engine_state \<Rightarrow> (error + chan_id) \<times> engine_state" where
  "EnqueueTransfer req s =
     (case req of
        None \<Rightarrow> (Inl (errors_New ''nil request''), s)
      | Some r \<Rightarrow>
          let c = nchans s;
              cs = (chans s)(c := \<lparr>buf = [], cap = 1\<rparr>);
              h = (heap s)(r := (heap s r)\<lparr>Done := Some c\<rparr>);
              p = pending s @ [r];
              p' = insertion_loop (\<lambda>a. Priority (h a)) (length p - 1) p
          in (Inr c, s\<lparr>heap := h, chans := cs, nchans := Suc c, pending := p'\<rparr>))"

text \<open>\<^verbatim>\<open>Stop\<close> is \<^verbatim>\<open>close(e.quit)\<close>; closing a closed channel panics.\<close>

datatype go_panic = CloseOfClosedChannel

definition Stop :: "engine_state \<Rightarrow> go_panic + engine_state" where
  "Stop s = (if quit_closed s then Inl CloseOfClosedChannel else Inr (s\<lparr>quit_closed := True\<rparr>))"

text \<open>
  The simulated service time of a request, as \<^verbatim>\<open>loop\<close> computes it: unsigned division
  of the size, a wrapping 64-bit product and sum, and Go's division of the signed
  64-bit value by two, which truncates towards zero (\<open>sdiv\<close> on \<open>int\<close>).
\<close>

definition service_latency :: "64 word \<Rightarrow> TransferRequest \<Rightarrow> 64 word" where
  "service_latency iv req =
     (let latency = iv + (SizeBytes req div 2 ^ 20) * 1 * Millisecond
      in if Priority req \<le> 0 then word_of_int (sint latency sdiv 2) else latency)"

text \<open>
  One pass through the body of \<^verbatim>\<open>for { ... }\<close> in \<^verbatim>\<open>loop\<close> is two steps, and
  other goroutines can run between them: \<^verbatim>\<open>Stop\<close> takes no lock, and the loop takes
  the mutex only after the \<^verbatim>\<open>select\<close>.

  The first step is \<^verbatim>\<open>select { case <-e.quit: return; default: }\<close>. The receive from
  \<^verbatim>\<open>quit\<close> succeeds exactly when the channel is closed, and then the goroutine
  returns; otherwise the loop goes on to the rest of the iteration.
\<close>

definition loop_select :: "engine_state \<Rightarrow> engine_state" where
  "loop_select s =
     (if loop_returned s \<or> loop_past_select s then s
      else if quit_closed s then s\<lparr>loop_returned := True\<rparr>
      else s\<lparr>loop_past_select := True\<rparr>)"

text \<open>
  The second step is the rest of the iteration, from \<^verbatim>\<open>e.mu.Lock()\<close> on; it does not
  look at \<^verbatim>\<open>quit\<close> again. With an empty queue it sleeps and changes nothing;
  otherwise it takes the head of the queue and starts the completion goroutine with the
  request and its latency. Then the loop is back at its \<^verbatim>\<open>select\<close>. Taking the
  request and starting the goroutine are one step here: in between, the loop only reads
  fields of the request that no step writes.
\<close>

definition loop_body :: "engine_state \<Rightarrow> engine_state" where
  "loop_body s =
     (if loop_returned s \<or> \<not> loop_past_select s then s
      else case pending s of
             [] \<Rightarrow> s\<lparr>loop_past_select := False\<rparr>
           | req # rest \<Rightarrow>
               let latency = service_latency (interval s) (heap s req)
               in s\<lparr>pending := rest, sleeping := sleeping s @ [(req, latency)],
                    dispatched := dispatched s @ [req], loop_past_select := False\<rparr>)"

text \<open>
  The loop goroutine running on its own to the end of its current iteration: the
  \<^verbatim>\<open>select\<close>, unless it is past it already, and then the rest.
\<close>

definition loop_iteration :: "engine_state \<Rightarrow> engine_state" where
  "loop_iteration s = loop_body (loop_select s)"

text \<open>
  The completion goroutine after its sleep: \<^verbatim>\<open>select { case r.Done <- nil: default: }\<close>.
  It reads \<^verbatim>\<open>r.Done\<close> at this moment. A send on the nil channel can never proceed, so
  there the \<^verbatim>\<open>default\<close> branch is taken.
\<close>

definition completion_goroutine :: "addr \<Rightarrow> bool \<Rightarrow> engine_state \<Rightarrow> engine_state" where
  "completion_goroutine r receiver_waiting s =
     (case Done (heap s r) of
        None \<Rightarrow> s\<lparr>signals := signals s @ [(r, None, Dropped)]\<rparr>
      | Some c \<Rightarrow>
          let res = nb_send (chans s c) None receiver_waiting
          in s\<lparr>chans := (chans s)(c := snd res),
               signals := signals s @ [(r, Some c, fst res)]\<rparr>)"

text \<open>
  The goroutines of the program interleave. A run is a sequence of events, each one
  atomic step of some goroutine: a caller's \<^verbatim>\<open>EnqueueTransfer\<close> or \<^verbatim>\<open>Stop\<close>, the
  \<^verbatim>\<open>select\<close> of the loop (\<open>LoopSelect\<close>), the rest of the loop's iteration
  (\<open>LoopBody\<close>), the wake-up of the \<open>i\<close>-th sleeping completion goroutine (with
  whether a receiver is blocked on its channel at that moment), or a caller taking a
  value out of a channel's buffer. \<open>LoopIteration\<close> stands for the loop running to
  the end of its iteration with no other goroutine in between. Sleep times only
  constrain the order of wake-ups, so every order is allowed. A panic ends the program.

  \<^verbatim>\<open>SubmitWithContext\<close> is a \<open>Submit\<close> followed by a blocking receive on the
  returned channel: its caller is the waiting receiver of a wake-up, or takes the
  buffered value with \<open>Receive\<close>; a caller whose context was cancelled does neither.
  Callers fill in their requests before they submit them: no event of a run writes to a
  request, apart from the store to \<^verbatim>\<open>Done\<close> in \<^verbatim>\<open>EnqueueTransfer\<close>, and no caller
  closes a channel it was handed.
\<close>

datatype event =
    Submit "addr option"
  | CallStop
  | LoopSelect
  | LoopBody
  | LoopIteration
  | Wake nat bool
  | Receive chan_id

fun step :: "event \<Rightarrow> engine_state \<Rightarrow> go_panic + engine_state" where
  "step (Submit req) s = Inr (snd (EnqueueTransfer req s))"
| "step CallStop s = Stop s"
| "step LoopSelect s = Inr (loop_select s)"
| "step LoopBody s = Inr (loop_body s)"
| "step LoopIteration s = Inr (loop_iteration s)"
| "step (Wake i w) s =
     Inr (if i < length (sleeping s)
          then completion_goroutine (fst (sleeping s ! i)) w
                 (s\<lparr>sleeping := take i (sleeping s) @ drop (Suc i) (sleeping s)\<rparr>)
          else s)"
| "step (Receive c) s =
     Inr (case buf (chans s c) of
            [] \<Rightarrow> s
          | v # rest \<Rightarrow> s\<lparr>chans := (chans s)(c := (chans s c)\<lparr>buf := rest\<rparr>)\<rparr>)"

fun run :: "event list \<Rightarrow> engine_state \<Rightarrow> go_panic + engine_state" where
  "run [] s = Inr s"
| "run (e # es) s = (case step e s of Inl p \<Rightarrow> Inl p | Inr s' \<Rightarrow> run es s')"

text \<open>The non-nil requests a run submits, in the order of submission.\<close>

fun submitted :: "event list \<Rightarrow> addr list" where
  "submitted [] = []"
| "submitted (Submit (Some r) # es) = r # submitted es"
| "submitted (e # es) = submitted es"

text \<open>The priority the engine reads for the request at an address.\<close>

definition prio_of :: "engine_state \<Rightarrow> addr \<Rightarrow> int" where
  "prio_of s a = Priority (heap s a)"

subsection \<open>The specification's queue discipline\<close>




text \<open>
  A run in which no request is submitted while it is in the pending queue.
\<close>

fun submits_not_pending :: "event list \<Rightarrow> engine_state \<Rightarrow> bool" where
  "submits_not_pending [] s = True"
| "submits_not_pending (e # es) s =
     ((case e of Submit (Some r) \<Rightarrow> r \<notin> set (pending s) | _ \<Rightarrow> True)
      \<and> (case step e s of Inl p \<Rightarrow> True | Inr s' \<Rightarrow> submits_not_pending es s'))"

text \<open>
  The service time as the specification words it, in nanoseconds: the base latency
  plus the per-MiB latency for every started MiB of the size (the ceiling of
  \<open>size_bytes / 1MiB\<close>), halved for a priority of at most 0.
\<close>

definition spec_service_time :: "int \<Rightarrow> int \<Rightarrow> nat \<Rightarrow> int \<Rightarrow> int" where
  "spec_service_time base_latency per_MiB_latency size_bytes priority =
     (let t = base_latency + int ((size_bytes + 2 ^ 20 - 1) div 2 ^ 20) * per_MiB_latency
      in if priority \<le> 0 then t div 2 else t)"

subsection \<open>The specification's example\<close>

text \<open>
  A memory for the examples: request A with priority 5 at address 0, request B with
  priority 1 at address 1, and request C with priority 1 at every other address; all of
  size 0, none with a \<^verbatim>\<open>Done\<close> channel yet. No channel has been made, and the engine is
  new.
\<close>

definition example_request :: "string \<Rightarrow> int \<Rightarrow> 64 word \<Rightarrow> TransferRequest" where
  "example_request name p sz =
     \<lparr>ID = name, SrcNode = 0, DstNode = 1, SizeBytes = sz, Priority = p, Meta = [], Done = None\<rparr>"

definition example_heap :: "addr \<Rightarrow> TransferRequest" where
  "example_heap a =
     (if a = 0 then example_request ''A'' 5 0
      else if a = 1 then example_request ''B'' 1 0
      else example_request ''C'' 1 0)"

definition no_chans :: "chan_id \<Rightarrow> chan" where
  "no_chans c = \<lparr>buf = [], cap = 0\<rparr>"

definition example_engine :: engine_state where
  "example_engine = NewPMEngine example_heap no_chans 0"

subsection \<open>Invariants of a run\<close>

text \<open>
  What holds of the completion signals in every run; \<open>subs\<close> are the requests
  submitted so far, one entry for every submission. Every submission is in exactly one
  place: in the queue, with a sleeping completion goroutine, or with its signal sent.
  Every submitted request has in \<^verbatim>\<open>Done\<close> a channel that no other request has. For a
  request that was submitted once and whose signal is not sent yet, that channel has
  capacity 1 and an empty buffer. Every signal went to a channel that exists, a signal
  on the \<^verbatim>\<open>Done\<close> channel of a request is a signal of that request, and the signal of
  a request that was submitted once went to its \<^verbatim>\<open>Done\<close> channel and was not dropped.
\<close>

definition signal_inv :: "addr list \<Rightarrow> engine_state \<Rightarrow> bool" where
  "signal_inv subs s \<longleftrightarrow>
     mset (pending s) + mset (map fst (sleeping s)) + mset (map fst (signals s)) = mset subs
     \<and> (\<forall>r \<in> set subs. \<exists>k. Done (heap s r) = Some k \<and> k < nchans s)
     \<and> inj_on (\<lambda>r. Done (heap s r)) (set subs)
     \<and> (\<forall>r \<in> set (pending s) \<union> fst ` set (sleeping s). count_list subs r = 1 \<longrightarrow>
           (\<forall>k. Done (heap s r) = Some k \<longrightarrow> buf (chans s k) = [] \<and> cap (chans s k) = 1))
     \<and> (\<forall>x \<in> set (signals s).
           (\<exists>k. fst (snd x) = Some k \<and> k < nchans s)
           \<and> (\<forall>r \<in> set subs. fst (snd x) = Done (heap s r) \<longrightarrow> fst x = r)
           \<and> (count_list subs (fst x) = 1 \<longrightarrow>
                fst (snd x) = Done (heap s (fst x)) \<and> snd (snd x) \<noteq> Dropped))"

text \<open>
  A request that is still queued after the loop has returned: no goroutine will ever
  take it off the queue.
\<close>

definition abandoned :: "addr \<Rightarrow> engine_state \<Rightarrow> bool" where
  "abandoned r s \<longleftrightarrow>
     loop_returned s \<and> r \<in> set (pending s) \<and> r \<notin> fst ` set (sleeping s)
     \<and> r \<notin> fst ` set (signals s)"

text \<open>
  With \<open>n\<close> channels in existence when the engine was made: every queued or
  dispatched request carries a channel that \<^verbatim>\<open>EnqueueTransfer\<close> made, and every signal
  went to such a channel.
\<close>

definition engine_chans_inv :: "nat \<Rightarrow> engine_state \<Rightarrow> bool" where
  "engine_chans_inv n s \<longleftrightarrow>
     n \<le> nchans s
     \<and> (\<forall>r \<in> set (pending s) \<union> fst ` set (sleeping s).
           \<exists>k. Done (heap s r) = Some k \<and> n \<le> k \<and> k < nchans s)
     \<and> (\<forall>x \<in> set (signals s). \<exists>k. fst (snd x) = Some k \<and> n \<le> k \<and> k < nchans s)"

text \<open>
  The memory of the examples again, but with every request carrying a channel that its
  caller put into \<^verbatim>\<open>Done\<close> beforehand: channel 0.
\<close>

definition example_heap_preinstalled :: "addr \<Rightarrow> TransferRequest" where
  "example_heap_preinstalled a = (example_heap a)\<lparr>Done := Some 0\<rparr>"

section \<open>Properties of the fragment directory\<close>

lemma map_of_Install:
  "map_of (data (Install d vpn idx m)) = (map_of (data d))(\<lparr>VPN = vpn, Index = idx\<rparr> \<mapsto> m)"
  by (simp add: Install_def update_conv')

lemma map_of_Remove:
  "map_of (data (Remove d vpn idx)) = (map_of (data d))(\<lparr>VPN = vpn, Index = idx\<rparr> := None)"
  by (simp add: Remove_def delete_conv')

lemma Lookup_absent:
  "\<not> snd (Lookup d vpn idx) \<Longrightarrow> \<lparr>VPN = vpn, Index = idx\<rparr> \<notin> fst ` set (data d)"
  by (cases "map_of (data d) \<lparr>VPN = vpn, Index = idx\<rparr>")
     (simp_all add: Lookup_def map_of_eq_None_iff)

text \<open>
  C8. For every key and mapping, \<^verbatim>\<open>Install\<close> followed by \<^verbatim>\<open>Lookup\<close> of the key
  returns exactly that mapping with found = true, whatever the directory held for the
  key before; \<^verbatim>\<open>Remove\<close> followed by \<^verbatim>\<open>Lookup\<close> returns found = false (with the
  zero mapping); and \<^verbatim>\<open>Remove\<close> of a key that is absent leaves the directory as it
  was.
\<close>

theorem Install_Remove_Lookup:
  "Lookup (Install d vpn idx m) vpn idx = (m, True)
   \<and> Lookup (Remove d vpn idx) vpn idx = (zero_FragMapping, False)
   \<and> (snd (Lookup d vpn idx) = False \<longrightarrow> Remove d vpn idx = d)"
proof (intro conjI impI)
  show "Lookup (Install d vpn idx m) vpn idx = (m, True)"
    by (simp add: Lookup_def map_of_Install)
  show "Lookup (Remove d vpn idx) vpn idx = (zero_FragMapping, False)"
    by (simp add: Lookup_def map_of_Remove)
next
  assume "snd (Lookup d vpn idx) = False"
  then have "\<lparr>VPN = vpn, Index = idx\<rparr> \<notin> fst ` set (data d)"
    by (simp add: Lookup_absent)
  then show "Remove d vpn idx = d"
    by (simp add: Remove_def)
qed

theorem Install_Remove_Lookup_witness:
  "snd (Lookup NewFragmentDirectory 0x1000 2) = False
   \<and> Remove NewFragmentDirectory 0x1000 2 = NewFragmentDirectory
   \<and> Lookup (Install NewFragmentDirectory 0x1000 2
        \<lparr>NodeID = 3, PhysAddr = 0xABCD, Size = 4096, Replica = False, LeaseEnds = 0, Flags = 0\<rparr>)
        0x1000 2
      = (\<lparr>NodeID = 3, PhysAddr = 0xABCD, Size = 4096, Replica = False, LeaseEnds = 0, Flags = 0\<rparr>,
         True)"
proof -
  have absent: "snd (Lookup NewFragmentDirectory 0x1000 2) = False"
    by (simp add: Lookup_def NewFragmentDirectory_def)
  show ?thesis
    using absent Install_Remove_Lookup [of NewFragmentDirectory "0x1000" 2]
    by simp
qed

subsection \<open>Scanning for a node\<close>

lemma set_update_fresh:
  "k \<notin> fst ` set al \<Longrightarrow> set (AList.update k v al) = insert (k, v) (set al)"
  by (induction al) auto

lemma scan_loop_set:
  "distinct (map fst es) \<Longrightarrow> fst ` set es \<inter> fst ` set out = {} \<Longrightarrow>
   set (scan_loop node es out) = set out \<union> {(k, m) \<in> set es. NodeID m = node}"
proof (induction node es out rule: scan_loop.induct)
  case (1 node out)
  then show ?case by simp
next
  case (2 node k v rest out)
  have fresh: "k \<notin> fst ` set out"
    using "2.prems"(2) by auto
  have d: "distinct (map fst rest)" and knr: "k \<notin> fst ` set rest"
    using "2.prems"(1) by auto
  let ?out' = "if NodeID v = node then AList.update k v out else out"
  have disj: "fst ` set rest \<inter> fst ` set ?out' = {}"
    using "2.prems"(2) knr by (auto simp: dom_update)
  have "set (scan_loop node rest ?out') = set ?out' \<union> {(k, m) \<in> set rest. NodeID m = node}"
    using "2.IH" [OF d disj] .
  then show ?case
    using fresh by (auto simp: set_update_fresh)
qed

lemma scan_loop_distinct:
  "distinct (map fst out) \<Longrightarrow> distinct (map fst (scan_loop node es out))"
  by (induction node es out rule: scan_loop.induct) (auto simp: distinct_update)

text \<open>
  Go leaves the order of a \<^verbatim>\<open>range\<close> over a map open. The entries returned do not
  depend on it: any two orders of the same entries give the same result.
\<close>

lemma scan_loop_order_irrelevant:
  assumes "distinct (map fst es)" "distinct (map fst es')" "set es' = set es"
  shows "set (scan_loop node es' []) = set (scan_loop node es [])"
  using assms by (simp add: scan_loop_set)

lemma run_dir_ops_snoc: "run_dir_ops (ops @ [op]) = apply_dir_op (run_dir_ops ops) op"
  by (simp add: run_dir_ops_def)

lemma distinct_run_dir_ops: "distinct (map fst (data (run_dir_ops ops)))"
proof (induction ops rule: rev_induct)
  case Nil
  then show ?case by (simp add: run_dir_ops_def NewFragmentDirectory_def)
next
  case (snoc op ops)
  then show ?case
    by (cases op)
       (simp_all add: run_dir_ops_snoc Install_def Remove_def distinct_update distinct_delete)
qed

lemma map_of_run_dir_ops:
  "map_of (data (run_dir_ops ops)) k = spec_most_recently_installed ops k"
proof (induction ops rule: rev_induct)
  case Nil
  then show ?case
    by (simp add: run_dir_ops_def NewFragmentDirectory_def spec_most_recently_installed_def)
next
  case (snoc op ops)
  then show ?case
    by (cases op)
       (auto simp: run_dir_ops_snoc map_of_Install map_of_Remove spec_most_recently_installed_def)
qed

text \<open>
  C9. For every node \<open>n\<close> and every directory state (whatever sequence of
  \<^verbatim>\<open>Install\<close> and \<^verbatim>\<open>Remove\<close> calls produced it), \<^verbatim>\<open>ScanForNode(n)\<close> returns
  exactly the pairs of a key and the mapping most recently installed for it (and not
  removed since) whose \<^verbatim>\<open>NodeID\<close> is \<open>n\<close>: no entry of another node is included,
  none of \<open>n\<close> is left out, and no key is returned twice.
\<close>

theorem ScanForNode_exact:
  "((k, m) \<in> set (ScanForNode (run_dir_ops ops) n)
      \<longleftrightarrow> spec_most_recently_installed ops k = Some m \<and> NodeID m = n)
   \<and> distinct (map fst (ScanForNode (run_dir_ops ops) n))"
proof -
  have "set (ScanForNode (run_dir_ops ops) n)
        = {(k, m) \<in> set (data (run_dir_ops ops)). NodeID m = n}"
    by (simp add: ScanForNode_def scan_loop_set distinct_run_dir_ops)
  moreover have "(k, m) \<in> set (data (run_dir_ops ops)) \<longleftrightarrow>
                 spec_most_recently_installed ops k = Some m"
    using distinct_run_dir_ops [of ops] map_of_run_dir_ops [of ops k]
    by (metis map_of_eq_Some_iff)
  ultimately show ?thesis
    by (simp add: ScanForNode_def scan_loop_distinct)
qed

text \<open>
  An example: node 4 holds two fragments after one of them was moved there from node 3
  and a third was installed and removed again; node 3 holds none.
\<close>

lemma ScanForNode_example:
  "ScanForNode (run_dir_ops
     [OpInstall 0x1000 2 \<lparr>NodeID = 3, PhysAddr = 0xABCD, Size = 4096, Replica = False, LeaseEnds = 0, Flags = 0\<rparr>,
      OpInstall 0x1000 3 \<lparr>NodeID = 4, PhysAddr = 0xABCD, Size = 4096, Replica = False, LeaseEnds = 0, Flags = 0\<rparr>,
      OpInstall 0x1000 2 \<lparr>NodeID = 4, PhysAddr = 0xABCE, Size = 4096, Replica = False, LeaseEnds = 0, Flags = 0\<rparr>,
      OpInstall 0x2000 0 \<lparr>NodeID = 4, PhysAddr = 0, Size = 4096, Replica = False, LeaseEnds = 0, Flags = 0\<rparr>,
      OpRemove 0x2000 0]) 4
   = [(\<lparr>VPN = 0x1000, Index = 2\<rparr>,
       \<lparr>NodeID = 4, PhysAddr = 0xABCE, Size = 4096, Replica = False, LeaseEnds = 0, Flags = 0\<rparr>),
      (\<lparr>VPN = 0x1000, Index = 3\<rparr>,
       \<lparr>NodeID = 4, PhysAddr = 0xABCD, Size = 4096, Replica = False, LeaseEnds = 0, Flags = 0\<rparr>)]"
  by (simp add: run_dir_ops_def ScanForNode_def Install_def Remove_def NewFragmentDirectory_def)

section \<open>Properties of the transfer engine\<close>

subsection \<open>The insertion loop of \<^verbatim>\<open>EnqueueTransfer\<close>\<close>

lemma length_insertion_loop [simp]: "length (insertion_loop prio i p) = length p"
  by (induction prio i p rule: insertion_loop.induct) simp_all

lemma insertion_loop_swap:
  "prio x < prio z \<Longrightarrow>
   insertion_loop prio (Suc (length xs)) (xs @ z # x # rest)
   = insertion_loop prio (length xs) (xs @ x # z # rest)"
  by (simp add: nth_append list_update_append)

lemma insertion_loop_stop:
  "\<not> prio x < prio z \<Longrightarrow>
   insertion_loop prio (Suc (length xs)) (xs @ z # x # rest) = xs @ z # x # rest"
  by (simp add: nth_append)

lemma insertion_loop_sorted:
  "sorted (map prio xs) \<Longrightarrow>
   insertion_loop prio (length xs) (xs @ x # rest)
   = filter (\<lambda>y. prio y \<le> prio x) xs @ x # filter (\<lambda>y. prio x < prio y) xs @ rest"
proof (induction xs arbitrary: rest rule: rev_induct)
  case Nil
  then show ?case by simp
next
  case (snoc z xs)
  have sorted_xs: "sorted (map prio xs)" and le_z: "\<forall>y \<in> set xs. prio y \<le> prio z"
    using snoc.prems by (auto simp: sorted_append)
  show ?case
  proof (cases "prio x < prio z")
    case True
    have "insertion_loop prio (length (xs @ [z])) ((xs @ [z]) @ x # rest)
          = insertion_loop prio (length xs) (xs @ x # z # rest)"
      using insertion_loop_swap [OF True, of xs rest] by simp
    also have "\<dots> = filter (\<lambda>y. prio y \<le> prio x) xs @ x # filter (\<lambda>y. prio x < prio y) xs @ z # rest"
      using snoc.IH [OF sorted_xs] .
    finally show ?thesis using True by simp
  next
    case False
    have all_le: "\<forall>y \<in> set xs. prio y \<le> prio x" using le_z False by auto
    have "insertion_loop prio (length (xs @ [z])) ((xs @ [z]) @ x # rest) = xs @ z # x # rest"
      using insertion_loop_stop [OF False, of xs rest] by simp
    moreover have "filter (\<lambda>y. prio y \<le> prio x) xs = xs"
      using all_le by simp
    moreover have "filter (\<lambda>y. prio x < prio y) xs = []"
      using all_le by (auto simp: filter_empty_conv)
    ultimately show ?thesis using False by simp
  qed
qed

lemma mset_insertion_loop:
  "i < length p \<Longrightarrow> mset (insertion_loop prio i p) = mset p"
proof (induction prio i p rule: insertion_loop.induct)
  case (1 prio p)
  then show ?case by simp
next
  case (2 prio j p)
  then show ?case by (simp add: mset_swap)
qed

lemma mset_pending_Enqueue:
  "mset (pending (snd (EnqueueTransfer (Some r) s))) = mset (pending s) + {#r#}"
  by (simp add: EnqueueTransfer_def Let_def mset_insertion_loop)

subsection \<open>What each operation leaves alone\<close>

lemma prio_of_eq: "prio_of s = (\<lambda>a. Priority (heap s a))"
  by (simp add: prio_of_def fun_eq_iff)

lemma prio_of_Enqueue [simp]: "prio_of (snd (EnqueueTransfer req s)) = prio_of s"
  by (cases req) (auto simp: EnqueueTransfer_def prio_of_def Let_def fun_eq_iff)

lemma completion_goroutine_fields [simp]:
  "pending (completion_goroutine r w s) = pending s"
  "heap (completion_goroutine r w s) = heap s"
  "quit_closed (completion_goroutine r w s) = quit_closed s"
  "loop_returned (completion_goroutine r w s) = loop_returned s"
  "loop_past_select (completion_goroutine r w s) = loop_past_select s"
  "dispatched (completion_goroutine r w s) = dispatched s"
  "sleeping (completion_goroutine r w s) = sleeping s"
  "nchans (completion_goroutine r w s) = nchans s"
  by (simp_all add: completion_goroutine_def Let_def split: option.splits)

lemma prio_of_completion_goroutine [simp]:
  "prio_of (completion_goroutine r w s) = prio_of s"
  by (simp add: prio_of_def fun_eq_iff)

lemma EnqueueTransfer_fields [simp]:
  "quit_closed (snd (EnqueueTransfer req s)) = quit_closed s"
  "loop_returned (snd (EnqueueTransfer req s)) = loop_returned s"
  "loop_past_select (snd (EnqueueTransfer req s)) = loop_past_select s"
  "dispatched (snd (EnqueueTransfer req s)) = dispatched s"
  "sleeping (snd (EnqueueTransfer req s)) = sleeping s"
  "signals (snd (EnqueueTransfer req s)) = signals s"
  by (simp_all add: EnqueueTransfer_def Let_def split: option.splits)

lemma EnqueueTransfer_nil [simp]: "EnqueueTransfer None s = (Inl (errors_New ''nil request''), s)"
  by (simp add: EnqueueTransfer_def)

text \<open>
  The \<^verbatim>\<open>select\<close> of the loop changes nothing but the place of the loop goroutine; the
  rest of the iteration does that or takes the head of the queue.
\<close>

lemma loop_select_cases:
  "loop_select s = s \<or> loop_select s = s\<lparr>loop_returned := True\<rparr>
   \<or> loop_select s = s\<lparr>loop_past_select := True\<rparr>"
  by (simp add: loop_select_def)

lemma loop_body_cases:
  "loop_body s = s \<or> loop_body s = s\<lparr>loop_past_select := False\<rparr>
   \<or> (\<exists>x rest. pending s = x # rest \<and> loop_past_select s \<and> \<not> loop_returned s
         \<and> loop_body s = s\<lparr>pending := rest,
               sleeping := sleeping s @ [(x, service_latency (interval s) (heap s x))],
               dispatched := dispatched s @ [x], loop_past_select := False\<rparr>)"
  by (cases "pending s") (simp_all add: loop_body_def Let_def)

lemma loop_select_fields [simp]:
  "pending (loop_select s) = pending s"
  "heap (loop_select s) = heap s"
  "chans (loop_select s) = chans s"
  "nchans (loop_select s) = nchans s"
  "quit_closed (loop_select s) = quit_closed s"
  "dispatched (loop_select s) = dispatched s"
  "sleeping (loop_select s) = sleeping s"
  "signals (loop_select s) = signals s"
  "interval (loop_select s) = interval s"
  by (simp_all add: loop_select_def)

lemma loop_body_fields [simp]:
  "heap (loop_body s) = heap s"
  "chans (loop_body s) = chans s"
  "nchans (loop_body s) = nchans s"
  "quit_closed (loop_body s) = quit_closed s"
  "loop_returned (loop_body s) = loop_returned s"
  "signals (loop_body s) = signals s"
  "interval (loop_body s) = interval s"
  by (simp_all add: loop_body_def Let_def split: list.splits)

lemma loop_select_control:
  "loop_returned (loop_select s)
   \<longleftrightarrow> loop_returned s \<or> (\<not> loop_past_select s \<and> quit_closed s)"
  "loop_past_select (loop_select s)
   \<longleftrightarrow> loop_past_select s \<or> (\<not> loop_returned s \<and> \<not> quit_closed s)"
  by (auto simp: loop_select_def)

lemma loop_body_control:
  "loop_past_select (loop_body s) \<longleftrightarrow> loop_past_select s \<and> loop_returned s"
  "dispatched (loop_body s)
   = dispatched s @ (if loop_past_select s \<and> \<not> loop_returned s then take 1 (pending s) else [])"
  "pending (loop_body s)
   = (if loop_past_select s \<and> \<not> loop_returned s then drop 1 (pending s) else pending s)"
  by (cases "pending s"; simp add: loop_body_def Let_def)+

lemma prio_of_loop [simp]:
  "prio_of (loop_select s) = prio_of s" "prio_of (loop_body s) = prio_of s"
  by (simp_all add: prio_of_eq)

lemmas engine_defs = example_engine_def NewPMEngine_def example_heap_def example_request_def
  no_chans_def EnqueueTransfer_def loop_iteration_def loop_select_def loop_body_def
  service_latency_def Millisecond_def completion_goroutine_def nb_send_def Stop_def Let_def

text \<open>An uninterrupted iteration is the two steps of the loop, one after the other.\<close>

lemma run_LoopIteration:
  "run (LoopIteration # es) s = run (LoopSelect # LoopBody # es) s"
  by (simp add: loop_iteration_def)

subsection \<open>Submission\<close>

text \<open>
  Into a queue that is sorted by priority, \<^verbatim>\<open>EnqueueTransfer\<close> puts the request behind
  every queued request of lower or equal priority value and in front of the others.
\<close>

lemma pending_Enqueue_sorted:
  assumes "sorted (map (prio_of s) (pending s))"
  shows "pending (snd (EnqueueTransfer (Some r) s))
         = filter (\<lambda>y. prio_of s y \<le> prio_of s r) (pending s) @ r #
           filter (\<lambda>y. prio_of s r < prio_of s y) (pending s)"
proof -
  have eq: "(\<lambda>a. Priority (if a = r then (heap s r)\<lparr>Done := Some (nchans s)\<rparr> else heap s a)) = prio_of s"
    by (auto simp: prio_of_def fun_eq_iff)
  show ?thesis
    using insertion_loop_sorted [OF assms, of r "[]"]
    by (simp add: EnqueueTransfer_def Let_def fun_upd_def eq)
qed

text \<open>
  C6. \<^verbatim>\<open>EnqueueTransfer\<close> of the nil request returns the error "nil request" and
  leaves the whole state, the pending queue with it, unchanged. For a non-nil request
  it returns a completion channel, and the pending queue afterwards is the old one plus
  this request: it is longer by exactly one.
\<close>

theorem EnqueueTransfer_result:
  "EnqueueTransfer None s = (Inl (errors_New ''nil request''), s)
   \<and> fst (EnqueueTransfer (Some r) s) = Inr (nchans s)
   \<and> length (pending (snd (EnqueueTransfer (Some r) s))) = length (pending s) + 1
   \<and> mset (pending (snd (EnqueueTransfer (Some r) s))) = mset (pending s) + {#r#}"
proof (intro conjI)
  show "EnqueueTransfer None s = (Inl (errors_New ''nil request''), s)"
    by (simp add: EnqueueTransfer_def)
  show "fst (EnqueueTransfer (Some r) s) = Inr (nchans s)"
    by (simp add: EnqueueTransfer_def Let_def)
  show "length (pending (snd (EnqueueTransfer (Some r) s))) = length (pending s) + 1"
    by (simp add: EnqueueTransfer_def Let_def)
  show "mset (pending (snd (EnqueueTransfer (Some r) s))) = mset (pending s) + {#r#}"
    by (rule mset_pending_Enqueue)
qed

subsection \<open>Calling \<^verbatim>\<open>Stop\<close>\<close>

lemma run_append:
  "run (es @ es') s = (case run es s of Inl p \<Rightarrow> Inl p | Inr s' \<Rightarrow> run es' s')"
  by (induction es arbitrary: s) (auto split: sum.splits)

lemma step_panics_iff:
  "(\<exists>p. step e s = Inl p) \<longleftrightarrow> e = CallStop \<and> quit_closed s"
  by (cases e) (auto simp: Stop_def)

lemma step_quit_closed:
  assumes "step e s = Inr s'"
  shows "quit_closed s' \<longleftrightarrow> quit_closed s \<or> e = CallStop"
proof (cases e)
  case (Wake i w)
  then show ?thesis using assms by (cases "i < length (sleeping s)") auto
next
  case (Receive c)
  then show ?thesis using assms by (cases "buf (chans s c)") auto
qed (use assms in \<open>auto simp: Stop_def loop_iteration_def split: if_splits\<close>)

lemma run_quit_closed:
  "run evs s = Inr s' \<Longrightarrow> quit_closed s' \<longleftrightarrow> quit_closed s \<or> CallStop \<in> set evs"
proof (induction evs arbitrary: s)
  case Nil
  then show ?case by simp
next
  case (Cons e evs)
  from Cons.prems obtain s1 where s1: "step e s = Inr s1" "run evs s1 = Inr s'"
    by (auto split: sum.splits)
  show ?case
    using Cons.IH [OF s1(2)] step_quit_closed [OF s1(1)] by auto
qed

lemma run_no_Stop:
  "CallStop \<notin> set evs \<Longrightarrow> \<exists>s'. run evs s = Inr s'"
proof (induction evs arbitrary: s)
  case Nil
  then show ?case by simp
next
  case (Cons e evs)
  then have "e \<noteq> CallStop" by auto
  then obtain s1 where s1: "step e s = Inr s1"
    using step_panics_iff [of e s] by (cases "step e s") auto
  moreover obtain s' where "run evs s1 = Inr s'"
    using Cons by auto
  ultimately show ?case by simp
qed

text \<open>
  The loop goroutine has returned only after \<^verbatim>\<open>quit\<close> was closed, and then it is not
  in the middle of an iteration.
\<close>

lemma loop_returned_step:
  assumes "loop_returned s \<longrightarrow> quit_closed s \<and> \<not> loop_past_select s" "step e s = Inr s'"
  shows "loop_returned s' \<longrightarrow> quit_closed s' \<and> \<not> loop_past_select s'"
proof (cases e)
  case (Submit req)
  then show ?thesis using assms by auto
next
  case CallStop
  then show ?thesis using assms by (auto simp: Stop_def split: if_splits)
next
  case LoopSelect
  then show ?thesis using assms by (auto simp: loop_select_control)
next
  case LoopBody
  then show ?thesis using assms by (auto simp: loop_body_control)
next
  case LoopIteration
  then show ?thesis
    using assms by (auto simp: loop_iteration_def loop_select_control loop_body_control)
next
  case (Wake i w)
  then show ?thesis using assms by (cases "i < length (sleeping s)") auto
next
  case (Receive c)
  then show ?thesis using assms by (cases "buf (chans s c)") auto
qed

lemma loop_returned_run:
  "loop_returned s \<longrightarrow> quit_closed s \<and> \<not> loop_past_select s \<Longrightarrow> run evs s = Inr s' \<Longrightarrow>
   loop_returned s' \<longrightarrow> quit_closed s' \<and> \<not> loop_past_select s'"
proof (induction evs arbitrary: s)
  case Nil
  then show ?case by simp
next
  case (Cons e evs)
  from Cons.prems(2) obtain s1 where s1: "step e s = Inr s1" "run evs s1 = Inr s'"
    by (auto split: sum.splits)
  show ?case
    using Cons.IH [OF loop_returned_step [OF Cons.prems(1) s1(1)] s1(2)] .
qed

text \<open>
  Once \<^verbatim>\<open>quit\<close> is closed the loop takes at most one more request off the queue, and
  only if it is past its \<^verbatim>\<open>select\<close>: the \<^verbatim>\<open>select\<close> lets it through no more.
\<close>

lemma dispatched_after_Stop_step:
  assumes "quit_closed s" "step e s = Inr s'"
  shows "\<exists>ds. dispatched s' = dispatched s @ ds
            \<and> length ds + (if loop_past_select s' \<and> \<not> loop_returned s' then 1 else 0)
               \<le> (if loop_past_select s \<and> \<not> loop_returned s then 1 else 0)"
proof (cases e)
  case (Submit req)
  then show ?thesis using assms by auto
next
  case CallStop
  then show ?thesis using assms by (auto simp: Stop_def)
next
  case LoopSelect
  then show ?thesis using assms by (auto simp: loop_select_control)
next
  case LoopBody
  then show ?thesis using assms by (auto simp: loop_body_control)
next
  case LoopIteration
  then show ?thesis
    using assms by (auto simp: loop_iteration_def loop_select_control loop_body_control)
next
  case (Wake i w)
  then show ?thesis using assms by (cases "i < length (sleeping s)") auto
next
  case (Receive c)
  then show ?thesis using assms by (cases "buf (chans s c)") auto
qed

lemma dispatched_after_Stop_run:
  "quit_closed s \<Longrightarrow> run es s = Inr t \<Longrightarrow>
   \<exists>ds. dispatched t = dispatched s @ ds
       \<and> length ds + (if loop_past_select t \<and> \<not> loop_returned t then 1 else 0)
          \<le> (if loop_past_select s \<and> \<not> loop_returned s then 1 else 0)"
proof (induction es arbitrary: s)
  case Nil
  then show ?case by simp
next
  case (Cons e es)
  from Cons.prems(2) obtain s1 where s1: "step e s = Inr s1" "run es s1 = Inr t"
    by (auto split: sum.splits)
  have q1: "quit_closed s1"
    using step_quit_closed [OF s1(1)] Cons.prems(1) by simp
  obtain ds1 where ds1: "dispatched s1 = dispatched s @ ds1"
    "length ds1 + (if loop_past_select s1 \<and> \<not> loop_returned s1 then 1 else 0)
       \<le> (if loop_past_select s \<and> \<not> loop_returned s then 1 else 0)"
    using dispatched_after_Stop_step [OF Cons.prems(1) s1(1)] by blast
  obtain ds2 where ds2: "dispatched t = dispatched s1 @ ds2"
    "length ds2 + (if loop_past_select t \<and> \<not> loop_returned t then 1 else 0)
       \<le> (if loop_past_select s1 \<and> \<not> loop_returned s1 then 1 else 0)"
    using Cons.IH [OF q1 s1(2)] by blast
  have "dispatched t = dispatched s @ (ds1 @ ds2)"
    using ds1(1) ds2(1) by simp
  moreover have "length (ds1 @ ds2) + (if loop_past_select t \<and> \<not> loop_returned t then 1 else 0)
       \<le> (if loop_past_select s \<and> \<not> loop_returned s then 1 else 0)"
    using ds1(2) ds2(2) by (simp split: if_splits)
  ultimately show ?case by blast
qed

text \<open>
  Once \<^verbatim>\<open>quit\<close> is closed, the loop goroutine has returned after it ran to the end of
  an iteration twice, whatever the other goroutines do in between.
\<close>

lemma loop_returns_after_Stop:
  "quit_closed s \<Longrightarrow> run es s = Inr t \<Longrightarrow>
   (if loop_returned s then 0 else if loop_past_select s then 2 else 1)
     \<le> count_list es LoopIteration \<Longrightarrow>
   loop_returned t"
proof (induction es arbitrary: s)
  case Nil
  then show ?case by (simp split: if_splits)
next
  case (Cons e es)
  from Cons.prems(2) obtain s1 where s1: "step e s = Inr s1" "run es s1 = Inr t"
    by (auto split: sum.splits)
  have q1: "quit_closed s1"
    using step_quit_closed [OF s1(1)] Cons.prems(1) by simp
  have "(if loop_returned s1 then 0 else if loop_past_select s1 then 2 else 1)
        \<le> count_list es LoopIteration"
  proof (cases e)
    case (Submit req)
    then show ?thesis using Cons.prems(3) s1(1) by (auto split: if_splits)
  next
    case CallStop
    then show ?thesis using Cons.prems(3) s1(1) by (auto simp: Stop_def split: if_splits)
  next
    case LoopSelect
    then show ?thesis
      using Cons.prems(1,3) s1(1) by (auto simp: loop_select_control split: if_splits)
  next
    case LoopBody
    then show ?thesis
      using Cons.prems(1,3) s1(1) by (auto simp: loop_body_control split: if_splits)
  next
    case LoopIteration
    then show ?thesis
      using Cons.prems(1,3) s1(1)
      by (auto simp: loop_iteration_def loop_select_control loop_body_control split: if_splits)
  next
    case (Wake i w)
    then show ?thesis using Cons.prems(3) s1(1) by (cases "i < length (sleeping s)") (auto split: if_splits)
  next
    case (Receive c)
    then show ?thesis using Cons.prems(3) s1(1) by (cases "buf (chans s c)") (auto split: if_splits)
  qed
  then show ?case
    using Cons.IH [OF q1 s1(2)] by blast
qed

text \<open>
  C3, as the code has it. In every run of the program from a new engine: a call of
  \<^verbatim>\<open>Stop\<close> when none was made before neither panics nor blocks; it closes \<^verbatim>\<open>quit\<close>
  and changes nothing else. A call of \<^verbatim>\<open>Stop\<close> after an earlier one panics, closing
  a closed channel. Closing \<^verbatim>\<open>quit\<close> only signals the loop: after it the loop takes
  at most one more request off the queue, and that only when it was past its test of
  \<^verbatim>\<open>quit\<close> already, and it has returned after it ran to the end of an iteration
  twice.
\<close>

theorem Stop_once_only:
  assumes "run evs (NewPMEngine h cs n) = Inr s"
  shows "(CallStop \<notin> set evs \<longrightarrow> Stop s = Inr (s\<lparr>quit_closed := True\<rparr>))
       \<and> (CallStop \<in> set evs \<longrightarrow>
            Stop s = Inl CloseOfClosedChannel
            \<and> (\<forall>es t. run es s = Inr t \<longrightarrow>
                 (\<exists>ds. dispatched t = dispatched s @ ds
                      \<and> length ds \<le> (if loop_past_select s then 1 else 0))
                 \<and> (2 \<le> count_list es LoopIteration \<longrightarrow> loop_returned t)))"
proof -
  have q: "quit_closed s \<longleftrightarrow> CallStop \<in> set evs"
    using run_quit_closed [OF assms] by (simp add: NewPMEngine_def)
  have first: "Stop s = Inr (s\<lparr>quit_closed := True\<rparr>)" if "CallStop \<notin> set evs"
    using that q by (simp add: Stop_def)
  have again: "Stop s = Inl CloseOfClosedChannel" if "CallStop \<in> set evs"
    using that q by (simp add: Stop_def)
  have bound: "\<exists>ds. dispatched t = dispatched s @ ds
                  \<and> length ds \<le> (if loop_past_select s then 1 else 0)"
    if "CallStop \<in> set evs" "run es s = Inr t" for es t
  proof -
    have "quit_closed s" using that(1) q by simp
    from dispatched_after_Stop_run [OF this that(2)] obtain ds where
      "dispatched t = dispatched s @ ds"
      "length ds + (if loop_past_select t \<and> \<not> loop_returned t then 1 else 0)
         \<le> (if loop_past_select s \<and> \<not> loop_returned s then 1 else 0)"
      by blast
    then have "dispatched t = dispatched s @ ds \<and> length ds \<le> (if loop_past_select s then 1 else 0)"
      by (simp split: if_splits)
    then show ?thesis by blast
  qed
  have halt: "loop_returned t"
    if "CallStop \<in> set evs" "run es s = Inr t" "2 \<le> count_list es LoopIteration" for es t
  proof -
    have qs: "quit_closed s" using that(1) q by simp
    have "(if loop_returned s then 0 else if loop_past_select s then 2 else 1)
          \<le> count_list es LoopIteration"
      using that(3) by simp
    then show ?thesis
      by (rule loop_returns_after_Stop [OF qs that(2)])
  qed
  show ?thesis
    using first again bound halt by blast
qed

text \<open>
  A new engine with A and B submitted and the loop past its \<^verbatim>\<open>select\<close>: the first
  \<^verbatim>\<open>Stop\<close> succeeds, a second one panics, and after the first the loop still takes B
  off the queue, then returns and leaves A behind.
\<close>

theorem Stop_once_only_witness:
  "\<exists>s s' t. run [Submit (Some 0), Submit (Some 1), LoopSelect] example_engine = Inr s
       \<and> CallStop \<notin> set [Submit (Some 0), Submit (Some 1), LoopSelect]
       \<and> Stop s = Inr s'
       \<and> run [Submit (Some 0), Submit (Some 1), LoopSelect, CallStop] example_engine = Inr s'
       \<and> CallStop \<in> set [Submit (Some 0), Submit (Some 1), LoopSelect, CallStop]
       \<and> Stop s' = Inl CloseOfClosedChannel
       \<and> loop_past_select s' \<and> dispatched s' = []
       \<and> run [LoopBody, LoopIteration, LoopIteration] s' = Inr t
       \<and> dispatched t = [1] \<and> pending t = [0] \<and> loop_returned t"
proof -
  let ?evs = "[Submit (Some 0), Submit (Some 1), LoopSelect]"
  let ?evs' = "[Submit (Some 0), Submit (Some 1), LoopSelect, CallStop]"
  let ?es = "[LoopBody, LoopIteration, LoopIteration]"
  obtain s where s: "run ?evs example_engine = Inr s"
    using run_no_Stop [of ?evs example_engine] by auto
  have ns: "CallStop \<notin> set ?evs" by simp
  have first: "Stop s = Inr (s\<lparr>quit_closed := True\<rparr>)"
    using Stop_once_only [where evs = ?evs and h = example_heap and cs = no_chans and n = 0
        and s = s] s [unfolded example_engine_def] ns
    by blast
  define s' where "s' = s\<lparr>quit_closed := True\<rparr>"
  have "run (?evs @ [CallStop]) example_engine = Inr s'"
    using s first by (simp only: run_append s'_def) simp
  then have s': "run ?evs' example_engine = Inr s'"
    by simp
  have ys: "CallStop \<in> set ?evs'" by simp
  note th = Stop_once_only [where evs = ?evs' and h = example_heap and cs = no_chans and n = 0
        and s = s', OF s' [unfolded example_engine_def]]
  have again: "Stop s' = Inl CloseOfClosedChannel"
    using th ys by blast
  have "\<exists>u. run ?evs' example_engine = Inr u \<and> loop_past_select u \<and> dispatched u = []"
    by (simp add: engine_defs)
  then have f: "loop_past_select s'" "dispatched s' = []"
    using s' by auto
  have "\<exists>t. run (?evs' @ ?es) example_engine = Inr t
          \<and> dispatched t = [1] \<and> pending t = [0]"
    by (simp add: engine_defs)
  then obtain t where "run (?evs' @ ?es) example_engine = Inr t"
    and t': "dispatched t = [1]" "pending t = [0]"
    by blast
  then have "run ?es s' = Inr t"
    using s' by (simp only: run_append sum.case)
  note t = this t'
  have "2 \<le> count_list ?es LoopIteration" by simp
  then have "loop_returned t"
    using th ys t(1) by blast
  then show ?thesis
    using s ns first [folded s'_def] s' ys again f t by blast
qed

text \<open>The claim as stated fails: the second of two calls of \<^verbatim>\<open>Stop\<close> panics.\<close>

theorem Stop_twice_counterexample:
  "run [CallStop, CallStop] example_engine = Inl CloseOfClosedChannel"
  by (simp add: engine_defs)

subsection \<open>Dispatch order\<close>
















text \<open>
  The order is that of the requests waiting at each removal: when the loop takes A off
  the queue before B and C are submitted, A is dispatched first.
\<close>

lemma dispatch_before_later_submission_example:
  "(case run [Submit (Some 0), LoopIteration, Submit (Some 1), Submit (Some 2),
              LoopIteration, LoopIteration] example_engine of
      Inl p \<Rightarrow> None
    | Inr s \<Rightarrow> Some (dispatched s))
   = Some [0, 1, 2]"
  by (simp add: engine_defs)

text \<open>
  A request can leave the queue after \<^verbatim>\<open>Stop\<close> has returned: the loop was past its
  test of \<^verbatim>\<open>quit\<close> when the channel was closed.
\<close>

lemma dispatch_after_Stop_example:
  "(case run [Submit (Some 0), LoopSelect, CallStop, LoopBody, LoopSelect, LoopBody]
       example_engine of
      Inl p \<Rightarrow> None
    | Inr s \<Rightarrow> Some (dispatched s, loop_returned s))
   = Some ([0], True)"
  by (simp add: engine_defs)

subsection \<open>The queue invariant\<close>

lemma sorted_loop_body:
  "sorted (map (prio_of s) (pending s)) \<Longrightarrow> sorted (map (prio_of s) (pending (loop_body s)))"
  using loop_body_cases [of s] by auto

lemma distinct_loop_body:
  "distinct (pending s) \<Longrightarrow> distinct (pending (loop_body s))"
  using loop_body_cases [of s] by auto

lemma step_sorted:
  assumes "sorted (map (prio_of s) (pending s))" "step e s = Inr s'"
  shows "sorted (map (prio_of s') (pending s')) \<and> prio_of s' = prio_of s"
proof (cases e)
  case (Submit req)
  show ?thesis
  proof (cases req)
    case None
    then show ?thesis using assms Submit by auto
  next
    case (Some r)
    have "s' = snd (EnqueueTransfer (Some r) s)"
      using assms(2) Submit Some by simp
    then show ?thesis
      using assms(1) by (auto simp: pending_Enqueue_sorted sorted_append sorted_filter)
  qed
next
  case CallStop
  then show ?thesis
    using assms by (auto simp: Stop_def prio_of_eq split: if_splits)
next
  case LoopSelect
  then show ?thesis
    using assms by auto
next
  case LoopBody
  then show ?thesis
    using assms sorted_loop_body [of s] by auto
next
  case LoopIteration
  then show ?thesis
    using assms sorted_loop_body [of "loop_select s"] by (auto simp: loop_iteration_def)
next
  case (Wake i w)
  then show ?thesis
    using assms by (auto simp: prio_of_eq)
next
  case (Receive c)
  then show ?thesis
    using assms by (auto simp: prio_of_eq split: list.splits)
qed

lemma run_sorted:
  "sorted (map (prio_of s) (pending s)) \<Longrightarrow> run evs s = Inr s' \<Longrightarrow>
   sorted (map (prio_of s') (pending s'))"
proof (induction evs arbitrary: s)
  case Nil
  then show ?case by simp
next
  case (Cons e evs)
  from Cons.prems(2) obtain s1 where s1: "step e s = Inr s1" "run evs s1 = Inr s'"
    by (auto split: sum.splits)
  have "sorted (map (prio_of s1) (pending s1))"
    using step_sorted [OF Cons.prems(1) s1(1)] by (rule conjunct1)
  then show ?case
    using s1(2) by (rule Cons.IH)
qed

lemma step_distinct:
  assumes "distinct (pending s)" "step e s = Inr s'"
    and "case e of Submit (Some r) \<Rightarrow> r \<notin> set (pending s) | _ \<Rightarrow> True"
  shows "distinct (pending s')"
proof (cases e)
  case (Submit req)
  show ?thesis
  proof (cases req)
    case None
    then show ?thesis using assms Submit by auto
  next
    case (Some r)
    have s': "s' = snd (EnqueueTransfer (Some r) s)"
      using assms(2) Submit Some by simp
    have "r \<notin> set (pending s)" using assms(3) Submit Some by simp
    then have "distinct (pending s @ [r])" using assms(1) by simp
    moreover have "mset (pending s') = mset (pending s @ [r])"
      by (simp add: s' mset_pending_Enqueue)
    ultimately show ?thesis
      by (metis mset_eq_imp_distinct_iff)
  qed
next
  case CallStop
  then show ?thesis
    using assms by (auto simp: Stop_def split: if_splits)
next
  case LoopSelect
  then show ?thesis
    using assms by auto
next
  case LoopBody
  then show ?thesis
    using assms distinct_loop_body [of s] by auto
next
  case LoopIteration
  then show ?thesis
    using assms distinct_loop_body [of "loop_select s"] by (auto simp: loop_iteration_def)
next
  case (Wake i w)
  then show ?thesis
    using assms by auto
next
  case (Receive c)
  then show ?thesis
    using assms by (auto split: list.splits)
qed

lemma run_distinct:
  "distinct (pending s) \<Longrightarrow> submits_not_pending evs s \<Longrightarrow> run evs s = Inr s' \<Longrightarrow>
   distinct (pending s')"
proof (induction evs arbitrary: s)
  case Nil
  then show ?case by simp
next
  case (Cons e evs)
  from Cons.prems(3) obtain s1 where s1: "step e s = Inr s1" "run evs s1 = Inr s'"
    by (auto split: sum.splits)
  have "distinct (pending s1)"
    using step_distinct [OF Cons.prems(1) s1(1)] Cons.prems(2) by simp
  moreover have "submits_not_pending evs s1"
    using Cons.prems(2) s1(1) by simp
  ultimately show ?case
    using Cons.IH s1(2) by blast
qed

text \<open>
  C7, as the code has it. After every run of the program from a new engine (so after
  every \<^verbatim>\<open>EnqueueTransfer\<close> and every dispatch step) the head of the pending queue
  has a priority value that is at most that of every other queued request. The queue
  holds no request twice provided no request was submitted while it was in the queue:
  \<^verbatim>\<open>EnqueueTransfer\<close> does not look for the request among the pending ones.
\<close>

theorem queue_invariant:
  assumes "run evs (NewPMEngine h cs n) = Inr s"
  shows "(case pending s of
            [] \<Rightarrow> True
          | x # rest \<Rightarrow> \<forall>y \<in> set rest. Priority (heap s x) \<le> Priority (heap s y))
         \<and> (submits_not_pending evs (NewPMEngine h cs n) \<longrightarrow> distinct (pending s))"
proof -
  let ?s0 = "NewPMEngine h cs n"
  have p0: "pending ?s0 = []" by (simp add: NewPMEngine_def)
  have "sorted (map (prio_of s) (pending s))"
    using run_sorted [OF _ assms] p0 by simp
  then have "case pending s of
            [] \<Rightarrow> True
          | x # rest \<Rightarrow> \<forall>y \<in> set rest. Priority (heap s x) \<le> Priority (heap s y)"
    by (auto simp: prio_of_def split: list.splits)
  moreover have "submits_not_pending evs ?s0 \<longrightarrow> distinct (pending s)"
    using run_distinct [OF _ _ assms] p0 by simp
  ultimately show ?thesis by simp
qed

theorem queue_invariant_witness:
  "\<exists>s. run [Submit (Some 0), Submit (Some 1), LoopIteration, Submit (Some 2), Submit (Some 1)]
          example_engine = Inr s
       \<and> submits_not_pending
            [Submit (Some 0), Submit (Some 1), LoopIteration, Submit (Some 2), Submit (Some 1)]
            example_engine
       \<and> distinct (pending s) \<and> pending s = [2, 1, 0]"
proof -
  let ?evs = "[Submit (Some 0), Submit (Some 1), LoopIteration, Submit (Some 2), Submit (Some 1)]"
  have np: "submits_not_pending ?evs example_engine"
    by (simp add: engine_defs)
  have "\<exists>s. run ?evs example_engine = Inr s \<and> pending s = [2, 1, 0]"
    by (simp add: engine_defs)
  then obtain s where s: "run ?evs example_engine = Inr s" and p: "pending s = [2, 1, 0]"
    by blast
  have "distinct (pending s)"
    using queue_invariant [where evs = ?evs and h = example_heap and cs = no_chans and n = 0
        and s = s]
      s [unfolded example_engine_def] np [unfolded example_engine_def]
    by blast
  then show ?thesis
    using s np p by blast
qed

text \<open>
  The claim as stated fails: a request that is submitted twice is in the queue twice.
\<close>

theorem same_request_twice_counterexample:
  "(case run [Submit (Some 0), Submit (Some 0)] example_engine of
      Inl p \<Rightarrow> None
    | Inr s \<Rightarrow> Some (pending s, distinct (pending s)))
   = Some ([0, 0], False)"
  by (simp add: engine_defs)

subsection \<open>Service time\<close>

lemma sint_small:
  fixes w :: "64 word"
  assumes "uint w < 2 ^ 63"
  shows "sint w = uint w"
proof -
  have "- (2 ^ 63) \<le> uint w" by (rule order_trans [of _ 0]) simp_all
  then show ?thesis
    using assms by (simp add: sint_uint signed_take_bit_int_eq_self)
qed

lemma uint_nonneg_sint:
  fixes w :: "64 word"
  assumes "0 \<le> sint w"
  shows "uint w = sint w"
proof -
  have "sint w < 2 ^ 64"
    using sint_less [of w] by simp
  then show ?thesis
    using assms by (simp add: uint_sint [of w] take_bit_int_eq_self)
qed

lemma sint_word_of_int_small:
  assumes "0 \<le> k" "k < 2 ^ 63"
  shows "sint (word_of_int k :: 64 word) = k"
proof -
  have "- (2 ^ 63) \<le> k" using assms(1) by (rule order_trans [rotated]) simp
  then show ?thesis
    using assms(2) by (simp add: sint_sbintrunc' signed_take_bit_int_eq_self)
qed

lemma latency_no_overflow:
  fixes iv sz :: "64 word"
  assumes nonneg: "0 \<le> sint iv"
    and bound: "sint iv + int (unat sz div 2 ^ 20) * 1000000 < 2 ^ 63"
  shows "uint (iv + (sz div 2 ^ 20) * 1 * Millisecond)
         = sint iv + int (unat sz div 2 ^ 20) * 1000000"
proof -
  define q where "q = sz div 2 ^ 20"
  define k where "k = int (unat sz div 2 ^ 20)"
  define m where "m = q * Millisecond"
  have q: "uint q = k"
    by (simp add: q_def k_def uint_div zdiv_int)
  have k0: "0 \<le> k" by (simp add: k_def)
  have b: "sint iv + k * 1000000 < 2 ^ 63"
    using bound by (simp add: k_def)
  have ms: "uint Millisecond = 1000000"
    by (simp add: Millisecond_def)
  have "uint q * uint Millisecond < 2 ^ LENGTH(64)"
    using nonneg b k0 by (simp add: q ms)
  then have "uint (q * Millisecond) = uint q * uint Millisecond"
    by (simp only: uint_mult_lem)
  then have m: "uint m = k * 1000000"
    by (simp add: m_def q ms)
  have iv: "uint iv = sint iv"
    using nonneg by (rule uint_nonneg_sint)
  have "uint iv + uint m < 2 ^ LENGTH(64)"
    using b by (simp add: m iv)
  then have "uint (iv + m) = uint iv + uint m"
    by (simp only: uint_add_lem)
  then have "uint (iv + m) = sint iv + k * 1000000"
    by (simp add: m iv)
  then show ?thesis
    by (simp add: m_def q_def k_def)
qed

text \<open>
  C4, as the code has it. As long as the 64-bit arithmetic does not overflow (the
  base latency is not negative and the sum stays below \<open>2 ^ 63\<close> nanoseconds), the
  simulated service time of a request is the base latency plus one millisecond for
  every whole MiB of its size (the size divided by 1 MiB and rounded down, not up),
  and this value is halved, rounding down, exactly when the priority is at most 0.
\<close>

theorem service_latency_value:
  fixes iv :: "64 word"
  assumes nonneg: "0 \<le> sint iv"
    and bound: "sint iv + int (unat (SizeBytes req) div 2 ^ 20) * 1000000 < 2 ^ 63"
  shows "sint (service_latency iv req)
         = (let t = sint iv + int (unat (SizeBytes req) div 2 ^ 20) * 1000000
            in if Priority req \<le> 0 then t div 2 else t)"
proof -
  let ?t = "sint iv + int (unat (SizeBytes req) div 2 ^ 20) * 1000000"
  let ?l = "iv + (SizeBytes req div 2 ^ 20) * 1 * Millisecond"
  have u: "uint ?l = ?t"
    using latency_no_overflow [OF nonneg bound] .
  then have s: "sint ?l = ?t"
    using bound sint_small [of ?l] by simp
  have t0: "0 \<le> ?t" using nonneg by simp
  then have half: "?t sdiv 2 = ?t div 2"
    by (simp add: signed_divide_int_def sgn_if)
  have "0 \<le> ?t div 2" "?t div 2 < 2 ^ 63"
    using t0 bound by simp_all
  then have "sint (word_of_int (?t div 2) :: 64 word) = ?t div 2"
    by (rule sint_word_of_int_small)
  then show ?thesis
    using s half by (simp add: service_latency_def Let_def)
qed

theorem service_latency_value_witness:
  "0 \<le> sint (2 * Millisecond)
   \<and> sint (2 * Millisecond) + int (unat (3 * 2 ^ 20 + 5 :: 64 word) div 2 ^ 20) * 1000000 < 2 ^ 63
   \<and> sint (service_latency (2 * Millisecond) (example_request ''A'' 0 (3 * 2 ^ 20 + 5))) = 2500000"
proof -
  have nonneg: "0 \<le> sint (2 * Millisecond)"
    by (simp add: Millisecond_def)
  have bound: "sint (2 * Millisecond)
      + int (unat (SizeBytes (example_request ''A'' 0 (3 * 2 ^ 20 + 5))) div 2 ^ 20) * 1000000
      < 2 ^ 63"
    by (simp add: Millisecond_def example_request_def)
  show ?thesis
    using service_latency_value [OF nonneg bound] nonneg bound
    by (simp add: Millisecond_def example_request_def)
qed

text \<open>
  The claim as stated fails: for a request of one byte and priority 1 on the default
  engine the code waits 2 ms, where the ceiling of the specification gives 3 ms.
\<close>

theorem service_latency_ceil_counterexample:
  "sint (service_latency (interval example_engine) (example_request ''A'' 1 1)) = 2000000
   \<and> spec_service_time 2000000 1000000 1 1 = 3000000"
  by (simp add: engine_defs spec_service_time_def)

text \<open>
  Beyond the bound the product wraps around: for a request of \<open>2 ^ 64 - 1\<close> bytes the
  computed latency is negative.
\<close>

lemma service_latency_overflow_example:
  "sint (service_latency (interval example_engine) (example_request ''A'' 1 (2 ^ 64 - 1)))
   = - 854558029292551616"
  by (simp add: engine_defs)

subsection \<open>Completion signals\<close>

lemma set_pending_Enqueue:
  "set (pending (snd (EnqueueTransfer (Some r) s))) = insert r (set (pending s))"
proof -
  have "set_mset (mset (pending (snd (EnqueueTransfer (Some r) s))))
        = set_mset (mset (pending s) + {#r#})"
    by (simp only: mset_pending_Enqueue)
  then show ?thesis by simp
qed

lemma signal_inv_stage_sets:
  assumes "signal_inv subs s"
  shows "set (pending s) \<union> fst ` set (sleeping s) \<union> fst ` set (signals s) = set subs"
proof -
  have "set_mset (mset (pending s) + mset (map fst (sleeping s)) + mset (map fst (signals s)))
        = set_mset (mset subs)"
    using assms by (simp add: signal_inv_def)
  then show ?thesis by simp
qed

lemma signal_inv_count:
  assumes "signal_inv subs s"
  shows "count_list (pending s) r + count_list (map fst (sleeping s)) r
         + count_list (map fst (signals s)) r = count_list subs r"
proof -
  have stages: "mset (pending s) + mset (map fst (sleeping s)) + mset (map fst (signals s))
                = mset subs"
    using assms by (simp add: signal_inv_def)
  have "count (mset subs) r
        = count (mset (pending s)) r + count (mset (map fst (sleeping s))) r
          + count (mset (map fst (signals s))) r"
    by (simp only: stages [symmetric] count_union)
  then show ?thesis
    by (simp only: count_mset)
qed

lemma signal_inv_New: "signal_inv [] (NewPMEngine h cs n)"
  by (simp add: signal_inv_def NewPMEngine_def)

lemma signal_inv_Submit:
  assumes inv: "signal_inv subs s"
  shows "signal_inv (subs @ [r]) (snd (EnqueueTransfer (Some r) s))"
proof -
  let ?s' = "snd (EnqueueTransfer (Some r) s)"
  note I = inv [unfolded signal_inv_def]
  have stages: "set (pending s) \<union> fst ` set (sleeping s) \<union> fst ` set (signals s) = set subs"
    using inv by (rule signal_inv_stage_sets)
  have heap': "heap ?s' = (heap s)(r := (heap s r)\<lparr>Done := Some (nchans s)\<rparr>)"
    and chans': "chans ?s' = (chans s)(nchans s := \<lparr>buf = [], cap = 1\<rparr>)"
    and nchans': "nchans ?s' = Suc (nchans s)"
    by (simp_all add: EnqueueTransfer_def Let_def)
  have done_r: "Done (heap ?s' r) = Some (nchans s)"
    by (simp add: heap')
  have done_other: "Done (heap ?s' a) = Done (heap s a)" if "a \<noteq> r" for a
    using that by (simp add: heap')
  have old: "\<exists>k. Done (heap s a) = Some k \<and> k < nchans s" if "a \<in> set subs" for a
    using I that by blast
  have inj: "a = b" if "a \<in> set subs" "b \<in> set subs" "Done (heap s a) = Done (heap s b)" for a b
    using I that by (auto simp: inj_on_def)
  have again: "count_list (subs @ [r]) r \<noteq> 1" if "r \<in> set subs"
  proof -
    have "count_list subs r \<noteq> 0" using that by (simp add: count_list_0_iff)
    then show ?thesis by simp
  qed
  have c2: "mset (pending ?s') + mset (map fst (sleeping ?s')) + mset (map fst (signals ?s'))
            = mset (subs @ [r])"
    using I by (simp add: mset_pending_Enqueue)
  have c3: "\<forall>a \<in> set (subs @ [r]). \<exists>k. Done (heap ?s' a) = Some k \<and> k < nchans ?s'"
  proof
    fix a assume a: "a \<in> set (subs @ [r])"
    show "\<exists>k. Done (heap ?s' a) = Some k \<and> k < nchans ?s'"
    proof (cases "a = r")
      case True
      then show ?thesis by (simp add: done_r nchans')
    next
      case False
      then have "a \<in> set subs" using a by simp
      then show ?thesis using old [of a] False by (auto simp: done_other nchans')
    qed
  qed
  have c4: "inj_on (\<lambda>a. Done (heap ?s' a)) (set (subs @ [r]))"
  proof (rule inj_onI)
    fix a b
    assume a: "a \<in> set (subs @ [r])" and b: "b \<in> set (subs @ [r])"
      and eq: "Done (heap ?s' a) = Done (heap ?s' b)"
    show "a = b"
    proof (cases "a = r")
      case True
      show ?thesis
      proof (cases "b = r")
        case True
        with \<open>a = r\<close> show ?thesis by simp
      next
        case False
        then have "b \<in> set subs" using b by auto
        then show ?thesis
          using old [of b] eq True False by (auto simp: done_r done_other)
      qed
    next
      case False
      then have a': "a \<in> set subs" using a by auto
      show ?thesis
      proof (cases "b = r")
        case True
        then show ?thesis
          using old [of a] a' eq False by (auto simp: done_r done_other)
      next
        case bf: False
        then have "b \<in> set subs" using b by auto
        moreover have "Done (heap s a) = Done (heap s b)"
          using eq False bf by (simp add: done_other)
        ultimately show ?thesis
          using a' by (blast intro: inj)
      qed
    qed
  qed
  have c5: "\<forall>a \<in> set (pending ?s') \<union> fst ` set (sleeping ?s').
              count_list (subs @ [r]) a = 1 \<longrightarrow>
              (\<forall>k. Done (heap ?s' a) = Some k \<longrightarrow>
                 buf (chans ?s' k) = [] \<and> cap (chans ?s' k) = 1)"
  proof (intro ballI allI impI)
    fix a k
    assume a: "a \<in> set (pending ?s') \<union> fst ` set (sleeping ?s')"
      and once: "count_list (subs @ [r]) a = 1"
      and k: "Done (heap ?s' a) = Some k"
    show "buf (chans ?s' k) = [] \<and> cap (chans ?s' k) = 1"
    proof (cases "a = r")
      case True
      then have "k = nchans s" using k by (simp add: done_r)
      then show ?thesis by (simp add: chans')
    next
      case False
      then have a': "a \<in> set (pending s) \<union> fst ` set (sleeping s)"
        using a by (simp add: set_pending_Enqueue)
      then have as: "a \<in> set subs" using stages by auto
      have k': "Done (heap s a) = Some k" using k False by (simp add: done_other)
      then have "k \<noteq> nchans s" using old [OF as] by auto
      moreover have "count_list subs a = 1" using once False by simp
      ultimately show ?thesis using I a' k' by (simp add: chans')
    qed
  qed
  have c6: "\<forall>x \<in> set (signals ?s').
           (\<exists>k. fst (snd x) = Some k \<and> k < nchans ?s')
           \<and> (\<forall>a \<in> set (subs @ [r]). fst (snd x) = Done (heap ?s' a) \<longrightarrow> fst x = a)
           \<and> (count_list (subs @ [r]) (fst x) = 1 \<longrightarrow>
                fst (snd x) = Done (heap ?s' (fst x)) \<and> snd (snd x) \<noteq> Dropped)"
  proof
    fix x assume "x \<in> set (signals ?s')"
    then have x: "x \<in> set (signals s)" by simp
    then have xs: "fst x \<in> set subs" using stages by auto
    obtain k where k: "fst (snd x) = Some k" "k < nchans s"
      using I x by blast
    have p1: "\<exists>k. fst (snd x) = Some k \<and> k < nchans ?s'"
      using k by (auto simp: nchans')
    have p2: "\<forall>a \<in> set (subs @ [r]). fst (snd x) = Done (heap ?s' a) \<longrightarrow> fst x = a"
    proof (intro ballI impI)
      fix a assume a: "a \<in> set (subs @ [r])" and eq: "fst (snd x) = Done (heap ?s' a)"
      show "fst x = a"
      proof (cases "a = r")
        case True
        then show ?thesis using eq k by (simp add: done_r)
      next
        case False
        then have "a \<in> set subs" using a by simp
        moreover have "fst (snd x) = Done (heap s a)" using eq False by (simp add: done_other)
        ultimately show ?thesis using I x by blast
      qed
    qed
    have p3: "fst (snd x) = Done (heap ?s' (fst x)) \<and> snd (snd x) \<noteq> Dropped"
      if once: "count_list (subs @ [r]) (fst x) = 1"
    proof -
      have ne: "fst x \<noteq> r" using again xs once by auto
      then have "count_list subs (fst x) = 1" using once by simp
      then show ?thesis using I x ne by (simp add: done_other)
    qed
    show "(\<exists>k. fst (snd x) = Some k \<and> k < nchans ?s')
           \<and> (\<forall>a \<in> set (subs @ [r]). fst (snd x) = Done (heap ?s' a) \<longrightarrow> fst x = a)
           \<and> (count_list (subs @ [r]) (fst x) = 1 \<longrightarrow>
                fst (snd x) = Done (heap ?s' (fst x)) \<and> snd (snd x) \<noteq> Dropped)"
      using p1 p2 p3 by blast
  qed
  show ?thesis
    unfolding signal_inv_def using c2 c3 c4 c5 c6 by blast
qed

lemma signal_inv_control:
  "signal_inv subs (s\<lparr>loop_returned := b\<rparr>) = signal_inv subs s"
  "signal_inv subs (s\<lparr>loop_past_select := b\<rparr>) = signal_inv subs s"
  "signal_inv subs (s\<lparr>quit_closed := b\<rparr>) = signal_inv subs s"
  by (simp_all add: signal_inv_def)

lemma signal_inv_loop_select:
  "signal_inv subs s \<Longrightarrow> signal_inv subs (loop_select s)"
  using loop_select_cases [of s] by (auto simp: signal_inv_control)

lemma signal_inv_loop_body:
  assumes inv: "signal_inv subs s"
  shows "signal_inv subs (loop_body s)"
proof -
  consider "loop_body s = s" | "loop_body s = s\<lparr>loop_past_select := False\<rparr>"
    | x rest where "pending s = x # rest"
        "loop_body s = s\<lparr>pending := rest,
               sleeping := sleeping s @ [(x, service_latency (interval s) (heap s x))],
               dispatched := dispatched s @ [x], loop_past_select := False\<rparr>"
    using loop_body_cases [of s] by blast
  then show ?thesis
  proof cases
    case 1
    then show ?thesis using inv by simp
  next
    case 2
    then show ?thesis using inv by (simp add: signal_inv_control)
  next
    case 3
    show ?thesis
      using inv unfolding signal_inv_def 3 by (simp add: Un_ac)
  qed
qed

lemma mset_remove_nth:
  "i < length xs \<Longrightarrow> mset (take i xs @ drop (Suc i) xs) + {#xs ! i#} = mset xs"
proof -
  assume "i < length xs"
  then have "xs = take i xs @ xs ! i # drop (Suc i) xs"
    by (rule id_take_nth_drop)
  then have "mset xs = mset (take i xs @ xs ! i # drop (Suc i) xs)"
    by simp
  then show ?thesis by simp
qed

lemma signal_inv_Wake:
  assumes inv: "signal_inv subs s" and i: "i < length (sleeping s)"
  shows "signal_inv subs (completion_goroutine (fst (sleeping s ! i)) w
           (s\<lparr>sleeping := take i (sleeping s) @ drop (Suc i) (sleeping s)\<rparr>))"
proof -
  let ?r = "fst (sleeping s ! i)"
  let ?sl = "take i (sleeping s) @ drop (Suc i) (sleeping s)"
  let ?s1 = "s\<lparr>sleeping := ?sl\<rparr>"
  let ?s' = "completion_goroutine ?r w ?s1"
  note I = inv [unfolded signal_inv_def]
  have stages: "set (pending s) \<union> fst ` set (sleeping s) \<union> fst ` set (signals s) = set subs"
    using inv by (rule signal_inv_stage_sets)
  have inj: "a = b" if "a \<in> set subs" "b \<in> set subs" "Done (heap s a) = Done (heap s b)" for a b
    using I that by (auto simp: inj_on_def)
  have r_sl: "?r \<in> fst ` set (sleeping s)"
    using i by (auto intro!: imageI nth_mem)
  then have r_subs: "?r \<in> set subs" using stages by auto
  then obtain k where k: "Done (heap s ?r) = Some k" "k < nchans s"
    using I by blast
  define out where "out = fst (nb_send (chans s k) None w)"
  define ch' where "ch' = snd (nb_send (chans s k) None w)"
  have out: "out \<noteq> Dropped" if "count_list subs ?r = 1"
  proof -
    have "buf (chans s k) = [] \<and> cap (chans s k) = 1"
      using I r_sl k(1) that by blast
    then show ?thesis by (simp add: out_def nb_send_def)
  qed
  have s': "?s' = ?s1\<lparr>chans := (chans s)(k := ch'), signals := signals s @ [(?r, Some k, out)]\<rparr>"
    using k(1) by (simp add: completion_goroutine_def Let_def out_def ch'_def)
  have msl: "mset (map fst ?sl) + {#?r#} = mset (map fst (sleeping s))"
    using mset_remove_nth [OF i]
    by (metis (no_types, lifting) mset_map image_mset_add_mset image_mset_union
        image_mset_empty add_mset_add_single)
  have c2: "mset (pending ?s') + mset (map fst (sleeping ?s')) + mset (map fst (signals ?s'))
            = mset subs"
  proof -
    have "mset (pending ?s') + mset (map fst (sleeping ?s')) + mset (map fst (signals ?s'))
          = mset (pending s) + (mset (map fst ?sl) + {#?r#}) + mset (map fst (signals s))"
      by (simp add: s')
    also have "\<dots> = mset subs"
      using I by (simp only: msl)
    finally show ?thesis .
  qed
  have r_not_later: "?r \<notin> set (pending s) \<union> fst ` set ?sl" if once: "count_list subs ?r = 1"
  proof -
    have "count (mset (pending s) + mset (map fst (sleeping s)) + mset (map fst (signals s))) ?r
          = 1"
      using I once by (simp add: count_mset [symmetric] del: count_mset)
    then have "count (mset (pending s) + (mset (map fst ?sl) + {#?r#})
                 + mset (map fst (signals s))) ?r = 1"
      by (simp only: msl)
    then have "count (mset (pending s)) ?r = 0" "count (mset (map fst ?sl)) ?r = 0"
      by simp_all
    then show ?thesis
      by (simp add: count_eq_zero_iff image_Un)
  qed
  have sl_sub: "fst ` set ?sl \<subseteq> fst ` set (sleeping s)"
    by (auto dest: in_set_takeD in_set_dropD)
  have c5: "\<forall>a \<in> set (pending ?s') \<union> fst ` set (sleeping ?s'). count_list subs a = 1 \<longrightarrow>
              (\<forall>j. Done (heap ?s' a) = Some j \<longrightarrow>
                 buf (chans ?s' j) = [] \<and> cap (chans ?s' j) = 1)"
  proof (intro ballI allI impI)
    fix a j
    assume a: "a \<in> set (pending ?s') \<union> fst ` set (sleeping ?s')"
      and once: "count_list subs a = 1"
      and j: "Done (heap ?s' a) = Some j"
    have a1: "a \<in> set (pending s) \<union> fst ` set ?sl" using a by (simp add: s')
    then have a2: "a \<in> set (pending s) \<union> fst ` set (sleeping s)" using sl_sub by auto
    then have a3: "a \<in> set subs" using stages by auto
    have "a \<noteq> ?r" using a1 r_not_later once by auto
    moreover have j': "Done (heap s a) = Some j" using j by (simp add: s')
    ultimately have "j \<noteq> k"
      using inj [OF a3 r_subs] k(1) by auto
    then show "buf (chans ?s' j) = [] \<and> cap (chans ?s' j) = 1"
      using I a2 j' once by (simp add: s')
  qed
  have c6: "\<forall>x \<in> set (signals ?s').
           (\<exists>j. fst (snd x) = Some j \<and> j < nchans ?s')
           \<and> (\<forall>a \<in> set subs. fst (snd x) = Done (heap ?s' a) \<longrightarrow> fst x = a)
           \<and> (count_list subs (fst x) = 1 \<longrightarrow>
                fst (snd x) = Done (heap ?s' (fst x)) \<and> snd (snd x) \<noteq> Dropped)"
  proof
    fix x assume "x \<in> set (signals ?s')"
    then consider "x \<in> set (signals s)" | "x = (?r, Some k, out)"
      by (auto simp: s')
    then show "(\<exists>j. fst (snd x) = Some j \<and> j < nchans ?s')
           \<and> (\<forall>a \<in> set subs. fst (snd x) = Done (heap ?s' a) \<longrightarrow> fst x = a)
           \<and> (count_list subs (fst x) = 1 \<longrightarrow>
                fst (snd x) = Done (heap ?s' (fst x)) \<and> snd (snd x) \<noteq> Dropped)"
    proof cases
      case 1
      then show ?thesis using I by (simp add: s')
    next
      case 2
      have "\<forall>a \<in> set subs. Some k = Done (heap s a) \<longrightarrow> ?r = a"
        using inj [OF r_subs] k(1) by auto
      then show ?thesis
        using 2 k out by (simp add: s')
    qed
  qed
  have c34: "(\<forall>r \<in> set subs. \<exists>k. Done (heap ?s' r) = Some k \<and> k < nchans ?s')
     \<and> inj_on (\<lambda>r. Done (heap ?s' r)) (set subs)"
    using I by (simp add: s')
  show ?thesis
    unfolding signal_inv_def using c2 c34 c5 c6 by blast
qed

lemma signal_inv_Receive:
  assumes inv: "signal_inv subs s"
  shows "signal_inv subs (case buf (chans s c) of
            [] \<Rightarrow> s
          | v # rest \<Rightarrow> s\<lparr>chans := (chans s)(c := (chans s c)\<lparr>buf := rest\<rparr>)\<rparr>)"
proof (cases "buf (chans s c)")
  case Nil
  then show ?thesis using inv by simp
next
  case (Cons v rest)
  note I = inv [unfolded signal_inv_def]
  have "\<forall>a \<in> set (pending s) \<union> fst ` set (sleeping s). count_list subs a = 1 \<longrightarrow>
          (\<forall>k. Done (heap s a) = Some k \<longrightarrow>
           buf (((chans s)(c := (chans s c)\<lparr>buf := rest\<rparr>)) k) = []
           \<and> cap (((chans s)(c := (chans s c)\<lparr>buf := rest\<rparr>)) k) = 1)"
  proof (intro ballI allI impI)
    fix a k
    assume a: "a \<in> set (pending s) \<union> fst ` set (sleeping s)"
      and once: "count_list subs a = 1" and k: "Done (heap s a) = Some k"
    have e: "buf (chans s k) = [] \<and> cap (chans s k) = 1" using I a once k by blast
    then have "k \<noteq> c" using Cons by auto
    then show "buf (((chans s)(c := (chans s c)\<lparr>buf := rest\<rparr>)) k) = []
           \<and> cap (((chans s)(c := (chans s c)\<lparr>buf := rest\<rparr>)) k) = 1"
      using e by simp
  qed
  then have "signal_inv subs (s\<lparr>chans := (chans s)(c := (chans s c)\<lparr>buf := rest\<rparr>)\<rparr>)"
    using I unfolding signal_inv_def by simp
  then show ?thesis using Cons by simp
qed

lemma signal_inv_step:
  assumes inv: "signal_inv subs s" and st: "step e s = Inr s'"
  shows "signal_inv (subs @ submitted [e]) s'"
proof (cases e)
  case (Submit req)
  show ?thesis
  proof (cases req)
    case None
    then show ?thesis using inv st Submit by auto
  next
    case (Some r)
    then show ?thesis
      using signal_inv_Submit [OF inv] st Submit Some by auto
  qed
next
  case CallStop
  then have "s' = s\<lparr>quit_closed := True\<rparr>"
    using st by (auto simp: Stop_def split: if_splits)
  then show ?thesis
    using inv CallStop by (simp add: signal_inv_control)
next
  case LoopSelect
  then show ?thesis
    using signal_inv_loop_select [OF inv] st by auto
next
  case LoopBody
  then show ?thesis
    using signal_inv_loop_body [OF inv] st by auto
next
  case LoopIteration
  then show ?thesis
    using signal_inv_loop_body [OF signal_inv_loop_select [OF inv]] st
    by (auto simp: loop_iteration_def)
next
  case (Wake i w)
  then show ?thesis
    using signal_inv_Wake [OF inv, of i w] inv st by (auto split: if_splits)
next
  case (Receive c)
  then show ?thesis
    using signal_inv_Receive [OF inv, of c] st by auto
qed

lemma submitted_append: "submitted (es @ es') = submitted es @ submitted es'"
  by (induction es rule: submitted.induct) simp_all

lemma signal_inv_run:
  "signal_inv subs s \<Longrightarrow> run evs s = Inr s' \<Longrightarrow> signal_inv (subs @ submitted evs) s'"
proof (induction evs arbitrary: subs s)
  case Nil
  then show ?case by simp
next
  case (Cons e evs)
  from Cons.prems(2) obtain s1 where s1: "step e s = Inr s1" "run evs s1 = Inr s'"
    by (auto split: sum.splits)
  have split: "submitted (e # evs) = submitted [e] @ submitted evs"
    using submitted_append [of "[e]" evs] by simp
  have "signal_inv (subs @ submitted [e]) s1"
    using signal_inv_step [OF Cons.prems(1) s1(1)] .
  then have "signal_inv ((subs @ submitted [e]) @ submitted evs) s'"
    using s1(2) Cons.IH by blast
  then show ?case by (simp add: split)
qed

text \<open>
  A request that is queued, and nowhere else, when the loop has returned stays so.
\<close>

lemma abandoned_step:
  assumes "abandoned r s" "step e s = Inr s'"
  shows "abandoned r s'"
proof (cases e)
  case (Submit req)
  then show ?thesis
    using assms by (cases req) (auto simp: abandoned_def set_pending_Enqueue)
next
  case CallStop
  then show ?thesis
    using assms by (auto simp: abandoned_def Stop_def split: if_splits)
next
  case LoopSelect
  then show ?thesis
    using assms by (auto simp: abandoned_def loop_select_def)
next
  case LoopBody
  then show ?thesis
    using assms by (auto simp: abandoned_def loop_body_def)
next
  case LoopIteration
  then show ?thesis
    using assms by (auto simp: abandoned_def loop_iteration_def loop_select_def loop_body_def)
next
  case (Wake i w)
  show ?thesis
  proof (cases "i < length (sleeping s)")
    case False
    then show ?thesis using assms Wake by auto
  next
    case True
    let ?a = "fst (sleeping s ! i)"
    let ?sl = "take i (sleeping s) @ drop (Suc i) (sleeping s)"
    have s': "s' = completion_goroutine ?a w (s\<lparr>sleeping := ?sl\<rparr>)"
      using assms(2) Wake True by simp
    have "?a \<in> fst ` set (sleeping s)"
      using True by (auto intro!: imageI nth_mem)
    then have ne: "?a \<noteq> r" using assms(1) by (auto simp: abandoned_def)
    have "fst ` set ?sl \<subseteq> fst ` set (sleeping s)"
      by (auto dest: in_set_takeD in_set_dropD)
    then have "r \<notin> fst ` set ?sl" using assms(1) by (auto simp: abandoned_def)
    moreover have "fst ` set (signals s') = insert ?a (fst ` set (signals s))"
      by (auto simp: s' completion_goroutine_def Let_def split: option.splits)
    ultimately show ?thesis
      using assms(1) ne by (simp add: abandoned_def s')
  qed
next
  case (Receive c)
  then show ?thesis
    using assms by (auto simp: abandoned_def split: list.splits)
qed

lemma abandoned_run:
  "abandoned r s \<Longrightarrow> run es s = Inr t \<Longrightarrow> abandoned r t"
proof (induction es arbitrary: s)
  case Nil
  then show ?case by simp
next
  case (Cons e es)
  from Cons.prems(2) obtain s1 where s1: "step e s = Inr s1" "run es s1 = Inr t"
    by (auto split: sum.splits)
  show ?case
    using Cons.IH [OF abandoned_step [OF Cons.prems(1) s1(1)] s1(2)] .
qed

text \<open>
  Without a \<^verbatim>\<open>Stop\<close>, letting the loop take every queued request and every
  completion goroutine wake up leaves every submission with its signal sent.
\<close>

lemma drain_queue:
  "length (pending s) = k \<Longrightarrow> \<not> quit_closed s \<Longrightarrow> \<not> loop_returned s \<Longrightarrow>
   \<exists>t. run (replicate k LoopIteration) s = Inr t \<and> pending t = []
       \<and> length (sleeping t) = length (sleeping s) + k"
proof (induction k arbitrary: s)
  case 0
  then show ?case by simp
next
  case (Suc k)
  then obtain x rest where p: "pending s = x # rest"
    by (cases "pending s") auto
  let ?s1 = "loop_iteration s"
  have s1: "pending ?s1 = rest" "\<not> quit_closed ?s1" "\<not> loop_returned ?s1"
    "length (sleeping ?s1) = Suc (length (sleeping s))"
    using p Suc.prems by (simp_all add: loop_iteration_def loop_select_def loop_body_def Let_def)
  have "length (pending ?s1) = k" using Suc.prems(1) p s1(1) by simp
  from Suc.IH [OF this s1(2) s1(3)] obtain t where
    "run (replicate k LoopIteration) ?s1 = Inr t" "pending t = []"
    "length (sleeping t) = length (sleeping ?s1) + k"
    by blast
  then show ?case using s1(4) by simp
qed

lemma wake_all:
  "length (sleeping s) = k \<Longrightarrow>
   \<exists>t. run (replicate k (Wake 0 w)) s = Inr t \<and> sleeping t = [] \<and> pending t = pending s"
proof (induction k arbitrary: s)
  case 0
  then show ?case by simp
next
  case (Suc k)
  let ?s1 = "completion_goroutine (fst (sleeping s ! 0)) w
                 (s\<lparr>sleeping := take 0 (sleeping s) @ drop (Suc 0) (sleeping s)\<rparr>)"
  have st: "step (Wake 0 w) s = Inr ?s1"
    using Suc.prems by simp
  have "length (sleeping ?s1) = k" "pending ?s1 = pending s"
    using Suc.prems by simp_all
  from Suc.IH [OF this(1)] this(2) obtain t where
    "run (replicate k (Wake 0 w)) ?s1 = Inr t" "sleeping t = []" "pending t = pending s"
    by auto
  then show ?case using st by simp
qed

lemma submitted_no_Submit [simp]:
  "submitted (replicate k LoopIteration) = []" "submitted (replicate k (Wake i w)) = []"
  by (induction k) simp_all

lemma completes_without_Stop:
  assumes inv: "signal_inv subs s" and nq: "\<not> quit_closed s" and nr: "\<not> loop_returned s"
  shows "\<exists>t. run (replicate (length (pending s)) LoopIteration
                 @ replicate (length (sleeping s) + length (pending s)) (Wake 0 False)) s = Inr t
             \<and> (\<forall>r. count_list (map fst (signals t)) r = count_list subs r)"
proof -
  let ?k = "length (pending s)"
  obtain u where u: "run (replicate ?k LoopIteration) s = Inr u" "pending u = []"
    "length (sleeping u) = length (sleeping s) + ?k"
    using drain_queue [OF refl nq nr] by blast
  obtain t where t: "run (replicate (length (sleeping s) + ?k) (Wake 0 False)) u = Inr t"
    "sleeping t = []" "pending t = pending u"
    using wake_all [OF u(3)] by blast
  let ?es = "replicate ?k LoopIteration @ replicate (length (sleeping s) + ?k) (Wake 0 False)"
  have r: "run ?es s = Inr t"
    using u(1) t(1) by (simp add: run_append)
  have "signal_inv (subs @ submitted ?es) t"
    using signal_inv_run [OF inv r] .
  then have it: "signal_inv subs t"
    by (simp add: submitted_append)
  have "count_list (map fst (signals t)) a = count_list subs a" for a
    using signal_inv_count [OF it, of a] t(2,3) u(2) by simp
  then show ?thesis using r by blast
qed

text \<open>
  C2, as the code has it. Take any run of the program and a request that is submitted
  exactly once in it; other requests may be submitted any number of times. The request
  is in exactly one of three places: still in the queue, dispatched with its completion
  goroutine asleep, or signalled exactly once. Its signal was sent on its own
  completion channel, the one \<^verbatim>\<open>EnqueueTransfer\<close> left in \<^verbatim>\<open>Done\<close>, and was delivered
  (handed to the receiver or buffered), whether or not the caller still waits; and no
  signal of another request is on that channel. So the channel carries exactly one
  signal as soon as the goroutine has run, and never a second one. As long as
  \<^verbatim>\<open>Stop\<close> has not been called, the loop and the goroutines can go on until the
  request has its signal. If the request is still queued when the loop has returned
  after \<^verbatim>\<open>Stop\<close>, it stays queued and gets no signal, whatever happens later.
\<close>

theorem completion_signal_at_most_once:
  assumes run: "run evs (NewPMEngine h cs n) = Inr s"
    and once: "count_list (submitted evs) r = 1"
  shows "count_list (pending s) r + count_list (map fst (sleeping s)) r
           + count_list (map fst (signals s)) r = 1
       \<and> (\<forall>x \<in> set (signals s).
            (fst x = r \<longrightarrow> fst (snd x) = Done (heap s r) \<and> snd (snd x) \<noteq> Dropped)
            \<and> (fst (snd x) = Done (heap s r) \<longrightarrow> fst x = r))
       \<and> (\<not> quit_closed s \<longrightarrow>
            (\<exists>t. run (replicate (length (pending s)) LoopIteration
                      @ replicate (length (sleeping s) + length (pending s)) (Wake 0 False)) s
                  = Inr t
                \<and> count_list (map fst (signals t)) r = 1))
       \<and> (loop_returned s \<and> r \<in> set (pending s) \<longrightarrow>
            (\<forall>es t. run es s = Inr t \<longrightarrow>
               r \<in> set (pending t) \<and> r \<notin> fst ` set (signals t)))"
proof -
  have inv: "signal_inv (submitted evs) s"
    using signal_inv_run [OF signal_inv_New run] by simp
  note I = inv [unfolded signal_inv_def]
  have rs: "r \<in> set (submitted evs)"
    using once count_list_0_iff [of "submitted evs" r] by auto
  have a: "count_list (pending s) r + count_list (map fst (sleeping s)) r
           + count_list (map fst (signals s)) r = 1"
    using signal_inv_count [OF inv, of r] once by simp
  have b: "\<forall>x \<in> set (signals s).
            (fst x = r \<longrightarrow> fst (snd x) = Done (heap s r) \<and> snd (snd x) \<noteq> Dropped)
            \<and> (fst (snd x) = Done (heap s r) \<longrightarrow> fst x = r)"
  proof
    fix x assume x: "x \<in> set (signals s)"
    have "fst (snd x) = Done (heap s r) \<and> snd (snd x) \<noteq> Dropped" if "fst x = r"
      using I x that once by blast
    moreover have "fst x = r" if "fst (snd x) = Done (heap s r)"
      using I x that rs by blast
    ultimately show "(fst x = r \<longrightarrow> fst (snd x) = Done (heap s r) \<and> snd (snd x) \<noteq> Dropped)
            \<and> (fst (snd x) = Done (heap s r) \<longrightarrow> fst x = r)"
      by blast
  qed
  have lr: "loop_returned s \<longrightarrow> quit_closed s \<and> \<not> loop_past_select s"
    using loop_returned_run [OF _ run] by (simp add: NewPMEngine_def)
  have c: "\<exists>t. run (replicate (length (pending s)) LoopIteration
                      @ replicate (length (sleeping s) + length (pending s)) (Wake 0 False)) s
                  = Inr t
                \<and> count_list (map fst (signals t)) r = 1"
    if "\<not> quit_closed s"
    using completes_without_Stop [OF inv that] lr that once by auto
  have d: "r \<in> set (pending t) \<and> r \<notin> fst ` set (signals t)"
    if ret: "loop_returned s" and r: "r \<in> set (pending s)" and t: "run es s = Inr t" for es t
  proof -
    have "count_list (pending s) r \<noteq> 0"
      using r by (simp add: count_list_0_iff)
    then have "count_list (map fst (sleeping s)) r = 0"
      "count_list (map fst (signals s)) r = 0"
      using a by arith+
    then have "abandoned r s"
      using ret r by (simp add: abandoned_def count_list_0_iff)
    then have "abandoned r t" using t by (rule abandoned_run)
    then show ?thesis by (simp add: abandoned_def)
  qed
  show ?thesis
  proof (intro conjI)
    show "loop_returned s \<and> r \<in> set (pending s) \<longrightarrow>
            (\<forall>es t. run es s = Inr t \<longrightarrow>
               r \<in> set (pending t) \<and> r \<notin> fst ` set (signals t))"
      using d by blast
    show "\<not> quit_closed s \<longrightarrow>
            (\<exists>t. run (replicate (length (pending s)) LoopIteration
                      @ replicate (length (sleeping s) + length (pending s)) (Wake 0 False)) s
                  = Inr t
                \<and> count_list (map fst (signals t)) r = 1)"
      using c by blast
  qed (rule a b)+
qed

text \<open>
  Request B is submitted once, next to a request C that is submitted twice: B is
  dispatched first and gets its one signal. In a second run, A and B are submitted
  once each, B is dispatched and signalled, and \<^verbatim>\<open>Stop\<close> leaves A in the queue for
  good.
\<close>

theorem completion_signal_at_most_once_witness:
  "(\<exists>s t. run [Submit (Some 2), Submit (Some 2), Submit (Some 1), LoopIteration] example_engine
             = Inr s
       \<and> count_list (submitted [Submit (Some 2), Submit (Some 2), Submit (Some 1), LoopIteration])
           1 = 1
       \<and> \<not> quit_closed s
       \<and> run (replicate (length (pending s)) LoopIteration
               @ replicate (length (sleeping s) + length (pending s)) (Wake 0 False)) s = Inr t
       \<and> count_list (map fst (signals t)) 1 = 1)
   \<and> (\<exists>s t. run [Submit (Some 0), Submit (Some 1), LoopIteration, Wake 0 False, CallStop,
                 LoopIteration] example_engine = Inr s
       \<and> count_list (submitted [Submit (Some 0), Submit (Some 1), LoopIteration, Wake 0 False,
                                 CallStop, LoopIteration]) 0 = 1
       \<and> signals s = [(1, Some 1, Buffered)] \<and> pending s = [0] \<and> sleeping s = []
       \<and> loop_returned s
       \<and> run [LoopIteration, Submit (Some 2), LoopIteration, Wake 0 False] s = Inr t
       \<and> 0 \<in> set (pending t) \<and> 0 \<notin> fst ` set (signals t))"
proof (rule conjI)
  let ?evs = "[Submit (Some 2), Submit (Some 2), Submit (Some 1), LoopIteration]"
  have once: "count_list (submitted ?evs) 1 = 1"
    by simp
  have "\<exists>s. run ?evs example_engine = Inr s \<and> \<not> quit_closed s"
    by (simp add: engine_defs)
  then obtain s where s: "run ?evs example_engine = Inr s" and nq: "\<not> quit_closed s"
    by blast
  have "\<exists>t. run (replicate (length (pending s)) LoopIteration
                      @ replicate (length (sleeping s) + length (pending s)) (Wake 0 False)) s
                  = Inr t
                \<and> count_list (map fst (signals t)) 1 = 1"
    using completion_signal_at_most_once [OF s [unfolded example_engine_def] once] nq by blast
  then show "\<exists>s t. run ?evs example_engine = Inr s
       \<and> count_list (submitted ?evs) 1 = 1
       \<and> \<not> quit_closed s
       \<and> run (replicate (length (pending s)) LoopIteration
               @ replicate (length (sleeping s) + length (pending s)) (Wake 0 False)) s = Inr t
       \<and> count_list (map fst (signals t)) 1 = 1"
    using s once nq by blast
next
  let ?evs = "[Submit (Some 0), Submit (Some 1), LoopIteration, Wake 0 False, CallStop,
               LoopIteration]"
  let ?es = "[LoopIteration, Submit (Some 2), LoopIteration, Wake 0 False]"
  have once: "count_list (submitted ?evs) 0 = 1"
    by simp
  have "\<exists>s. run ?evs example_engine = Inr s
         \<and> signals s = [(1, Some 1, Buffered)] \<and> pending s = [0] \<and> sleeping s = []
         \<and> loop_returned s"
    by (simp add: engine_defs)
  then obtain s where s: "run ?evs example_engine = Inr s"
    and f: "signals s = [(1, Some 1, Buffered)]" "pending s = [0]" "sleeping s = []"
      "loop_returned s"
    by blast
  have "\<exists>t. run ?es s = Inr t"
    by (rule run_no_Stop) simp
  then obtain t where t: "run ?es s = Inr t"
    by blast
  have q: "loop_returned s \<and> 0 \<in> set (pending s)"
    using f by simp
  have "\<forall>es t. run es s = Inr t \<longrightarrow> 0 \<in> set (pending t) \<and> 0 \<notin> fst ` set (signals t)"
    using completion_signal_at_most_once [OF s [unfolded example_engine_def] once] q by blast
  then have "0 \<in> set (pending t) \<and> 0 \<notin> fst ` set (signals t)"
    using t by blast
  then show "\<exists>s t. run ?evs example_engine = Inr s
       \<and> count_list (submitted ?evs) 0 = 1
       \<and> signals s = [(1, Some 1, Buffered)] \<and> pending s = [0] \<and> sleeping s = []
       \<and> loop_returned s
       \<and> run ?es s = Inr t
       \<and> 0 \<in> set (pending t) \<and> 0 \<notin> fst ` set (signals t)"
    using s once f t by blast
qed

text \<open>
  The claim as stated fails: a request that is still queued when \<^verbatim>\<open>Stop\<close> is called
  gets no completion signal. Here the loop has returned, the request is still pending,
  no completion goroutine exists and no signal was sent.
\<close>

theorem queued_at_Stop_counterexample:
  "(case run [Submit (Some 0), CallStop, LoopIteration, LoopIteration, Wake 0 False] example_engine of
      Inl p \<Rightarrow> None
    | Inr s \<Rightarrow> Some (loop_returned s, pending s, sleeping s, signals s))
   = Some (True, [0], [], [])"
  by (simp add: engine_defs)

text \<open>
  The proviso is needed. A request that is submitted twice can be in the queue and have
  a signal at once: one submission was dispatched, the other was still queued when the
  loop returned.
\<close>

lemma submitted_twice_example:
  "(case run [Submit (Some 0), Submit (Some 0), LoopIteration, CallStop, LoopIteration,
              Wake 0 False] example_engine of
      Inl p \<Rightarrow> None
    | Inr s \<Rightarrow> Some (loop_returned s, pending s, signals s))
   = Some (True, [0], [(0, Some 1, Buffered)])"
  by (simp add: engine_defs)

subsection \<open>Delivery to a caller that is not listening\<close>








text \<open>
  A signal is dropped when the buffer is full, as for a request that was submitted
  twice and whose caller received nothing: both goroutines find the second channel in
  \<^verbatim>\<open>Done\<close>.
\<close>

lemma dropped_when_buffer_full_example:
  "(case run [Submit (Some 0), Submit (Some 0), LoopIteration, LoopIteration,
              Wake 0 False, Wake 0 False] example_engine of
      Inl p \<Rightarrow> None
    | Inr s \<Rightarrow> Some (signals s, buf (chans s 0), buf (chans s 1)))
   = Some ([(0, Some 1, Buffered), (0, Some 1, Dropped)], [], [None])"
  by (simp add: engine_defs)

subsection \<open>The completion channel\<close>

lemma engine_chans_inv_loop_select:
  "engine_chans_inv n s \<Longrightarrow> engine_chans_inv n (loop_select s)"
  using loop_select_cases [of s] by (auto simp: engine_chans_inv_def)

lemma engine_chans_inv_loop_body:
  assumes inv: "engine_chans_inv n s"
  shows "engine_chans_inv n (loop_body s)"
proof -
  consider "loop_body s = s" | "loop_body s = s\<lparr>loop_past_select := False\<rparr>"
    | x rest where "pending s = x # rest"
        "loop_body s = s\<lparr>pending := rest,
               sleeping := sleeping s @ [(x, service_latency (interval s) (heap s x))],
               dispatched := dispatched s @ [x], loop_past_select := False\<rparr>"
    using loop_body_cases [of s] by blast
  then show ?thesis
  proof cases
    case 1
    then show ?thesis using inv by simp
  next
    case 2
    then show ?thesis using inv by (simp add: engine_chans_inv_def)
  next
    case 3
    show ?thesis
      using inv unfolding engine_chans_inv_def 3 by simp
  qed
qed

lemma engine_chans_inv_step:
  assumes inv: "engine_chans_inv n s" and st: "step e s = Inr s'"
  shows "engine_chans_inv n s'"
proof (cases e)
  case (Submit req)
  show ?thesis
  proof (cases req)
    case None
    then show ?thesis using inv st Submit by auto
  next
    case (Some r)
    let ?t = "snd (EnqueueTransfer (Some r) s)"
    have s': "s' = ?t" using st Submit Some by simp
    have f: "heap ?t = (heap s)(r := (heap s r)\<lparr>Done := Some (nchans s)\<rparr>)"
      "nchans ?t = Suc (nchans s)"
      by (simp_all add: EnqueueTransfer_def Let_def)
    note I = inv [unfolded engine_chans_inv_def]
    have "\<exists>k. Done (heap ?t a) = Some k \<and> n \<le> k \<and> k < nchans ?t"
      if "a \<in> set (pending ?t) \<union> fst ` set (sleeping ?t)" for a
    proof (cases "a = r")
      case True
      then show ?thesis using I by (simp add: f)
    next
      case False
      then have "a \<in> set (pending s) \<union> fst ` set (sleeping s)"
        using that by (simp add: set_pending_Enqueue)
      then obtain k where "Done (heap s a) = Some k" "n \<le> k" "k < nchans s"
        using I by blast
      then show ?thesis using False by (simp add: f)
    qed
    moreover have "\<exists>k. fst (snd x) = Some k \<and> n \<le> k \<and> k < nchans ?t"
      if "x \<in> set (signals ?t)" for x
    proof -
      have "x \<in> set (signals s)" using that by simp
      then obtain k where "fst (snd x) = Some k" "n \<le> k" "k < nchans s"
        using I by blast
      then show ?thesis by (auto simp: f)
    qed
    moreover have "n \<le> nchans ?t" using I by (simp add: f)
    ultimately show ?thesis
      unfolding engine_chans_inv_def s' by blast
  qed
next
  case CallStop
  then have "s' = s\<lparr>quit_closed := True\<rparr>"
    using st by (auto simp: Stop_def split: if_splits)
  then show ?thesis
    using inv by (simp add: engine_chans_inv_def)
next
  case LoopSelect
  then show ?thesis
    using engine_chans_inv_loop_select [OF inv] st by auto
next
  case LoopBody
  then show ?thesis
    using engine_chans_inv_loop_body [OF inv] st by auto
next
  case LoopIteration
  then show ?thesis
    using engine_chans_inv_loop_body [OF engine_chans_inv_loop_select [OF inv]] st
    by (auto simp: loop_iteration_def)
next
  case (Wake i w)
  show ?thesis
  proof (cases "i < length (sleeping s)")
    case False
    then show ?thesis using inv st Wake by auto
  next
    case True
    let ?a = "fst (sleeping s ! i)"
    let ?sl = "take i (sleeping s) @ drop (Suc i) (sleeping s)"
    note I = inv [unfolded engine_chans_inv_def]
    have "?a \<in> fst ` set (sleeping s)"
      using True by (auto intro!: imageI nth_mem)
    then obtain k where k: "Done (heap s ?a) = Some k" "n \<le> k" "k < nchans s"
      using I by blast
    have s': "s' = s\<lparr>sleeping := ?sl,
                     chans := (chans s)(k := snd (nb_send (chans s k) None w)),
                     signals := signals s @ [(?a, Some k, fst (nb_send (chans s k) None w))]\<rparr>"
      using st Wake True k(1) by (simp add: completion_goroutine_def Let_def)
    have sub: "fst ` set ?sl \<subseteq> fst ` set (sleeping s)"
      by (auto dest: in_set_takeD in_set_dropD)
    have "\<forall>r \<in> set (pending s) \<union> fst ` set ?sl.
           \<exists>k. Done (heap s r) = Some k \<and> n \<le> k \<and> k < nchans s"
      using I sub by blast
    then show ?thesis
      using I k unfolding engine_chans_inv_def s' by simp
  qed
next
  case (Receive c)
  then have "s' = s \<or> (\<exists>cs'. s' = s\<lparr>chans := cs'\<rparr>)"
    using st by (auto split: list.splits)
  moreover have "engine_chans_inv n (s\<lparr>chans := cs'\<rparr>)" for cs'
    using inv by (simp add: engine_chans_inv_def)
  ultimately show ?thesis using inv by auto
qed

lemma engine_chans_inv_run:
  "engine_chans_inv n s \<Longrightarrow> run evs s = Inr s' \<Longrightarrow> engine_chans_inv n s'"
proof (induction evs arbitrary: s)
  case Nil
  then show ?case by simp
next
  case (Cons e evs)
  from Cons.prems(2) obtain s1 where s1: "step e s = Inr s1" "run evs s1 = Inr s'"
    by (auto split: sum.splits)
  show ?case
    using Cons.IH [OF engine_chans_inv_step [OF Cons.prems(1) s1(1)] s1(2)] .
qed

text \<open>
  C10. For every non-nil request, whatever its \<^verbatim>\<open>Done\<close> field held,
  \<^verbatim>\<open>EnqueueTransfer\<close> makes a new channel with capacity 1 and an empty buffer, stores
  it in \<^verbatim>\<open>Done\<close> and returns it. In every run from a new engine all signals go to
  channels made this way: none goes to a channel that existed before, such as one the
  caller had put into the request.
\<close>

theorem EnqueueTransfer_replaces_Done:
  "fst (EnqueueTransfer (Some r) s) = Inr (nchans s)
   \<and> Done (heap (snd (EnqueueTransfer (Some r) s)) r) = Some (nchans s)
   \<and> chans (snd (EnqueueTransfer (Some r) s)) (nchans s) = \<lparr>buf = [], cap = 1\<rparr>
   \<and> nchans (snd (EnqueueTransfer (Some r) s)) = Suc (nchans s)
   \<and> (run evs (NewPMEngine h cs n) = Inr t \<longrightarrow>
        (\<forall>x \<in> set (signals t). \<exists>k. fst (snd x) = Some k \<and> n \<le> k \<and> k < nchans t))"
proof (intro conjI impI)
  assume "run evs (NewPMEngine h cs n) = Inr t"
  moreover have "engine_chans_inv n (NewPMEngine h cs n)"
    by (simp add: engine_chans_inv_def NewPMEngine_def)
  ultimately have "engine_chans_inv n t"
    by (rule engine_chans_inv_run [rotated])
  then show "\<forall>x \<in> set (signals t). \<exists>k. fst (snd x) = Some k \<and> n \<le> k \<and> k < nchans t"
    by (simp add: engine_chans_inv_def)
qed (simp_all add: EnqueueTransfer_def Let_def)

theorem EnqueueTransfer_replaces_Done_witness:
  "\<exists>t. run [Submit (Some 0), LoopIteration, Wake 0 False]
          (NewPMEngine example_heap_preinstalled no_chans 1) = Inr t
       \<and> Done (example_heap_preinstalled 0) = Some 0
       \<and> signals t = [(0, Some 1, Buffered)]
       \<and> chans t 0 = no_chans 0
       \<and> list_all (\<lambda>x. case fst (snd x) of None \<Rightarrow> False | Some k \<Rightarrow> 1 \<le> k) (signals t)"
proof -
  let ?evs = "[Submit (Some 0), LoopIteration, Wake 0 False]"
  have "\<exists>t. run ?evs (NewPMEngine example_heap_preinstalled no_chans 1) = Inr t
         \<and> signals t = [(0, Some 1, Buffered)] \<and> chans t 0 = no_chans 0"
    by (simp add: engine_defs example_heap_preinstalled_def)
  then obtain t where t: "run ?evs (NewPMEngine example_heap_preinstalled no_chans 1) = Inr t"
    and f: "signals t = [(0, Some 1, Buffered)]" "chans t 0 = no_chans 0"
    by blast
  have "\<forall>x \<in> set (signals t). \<exists>k. fst (snd x) = Some k \<and> 1 \<le> k \<and> k < nchans t"
    using EnqueueTransfer_replaces_Done [where evs = ?evs and h = example_heap_preinstalled
        and cs = no_chans and n = 1 and t = t] t
    by blast
  then have "list_all (\<lambda>x. case fst (snd x) of None \<Rightarrow> False | Some k \<Rightarrow> 1 \<le> k) (signals t)"
    by (auto simp: list_all_iff)
  moreover have "Done (example_heap_preinstalled 0) = Some 0"
    by (simp add: example_heap_preinstalled_def)
  ultimately show ?thesis
    using t f by blast
qed

end
